theory Spec2Isabelle
  imports Complex_Main "HOL-Library.Word" "HOL-Library.Log_Nat"
begin

section \<open>Container runtime statistics: the data model of docker/stats.go\<close>

text \<open>
  The snapshot type \<^verbatim>\<open>types.StatsJSON\<close> belongs to the Docker API package. Only the
  fields that stats.go reads are kept, with their Go types: every counter is a
  \<^verbatim>\<open>uint64\<close>, modelled as a 64-bit word whose arithmetic wraps around.
\<close>

type_synonym uint64 = "64 word"

record CPUUsage =
  TotalUsage :: uint64
  PercpuUsage :: "uint64 list"

record CPUStats =
  CPUUsage :: CPUUsage
  SystemUsage :: uint64

record MemoryStats =
  Usage :: uint64
  Limit :: uint64

record BlkioStatEntry =
  Major :: uint64
  Minor :: uint64
  Op :: string
  Value :: uint64

record BlkioStats =
  IoServiceBytesRecursive :: "BlkioStatEntry list"

record NetworkStats =
  RxBytes :: uint64
  TxBytes :: uint64

record PidsStats =
  Current :: uint64

text \<open>
  \<^verbatim>\<open>Networks\<close> is a Go map from interface names to counters. A \<^verbatim>\<open>range\<close> loop visits
  every entry of a map once, in an order the language leaves open; the field holds the
  entries in the order the loop visits them, so a statement about every list is a
  statement about every iteration order.
\<close>

record StatsJSON =
  CPUStats :: CPUStats
  PreCPUStats :: CPUStats
  MemoryStats :: MemoryStats
  BlkioStats :: BlkioStats
  PidsStats :: PidsStats
  Networks :: "(string \<times> NetworkStats) list"

section \<open>Block I/O\<close>

text \<open>
  \<^verbatim>\<open>calculateBlockIO\<close> compares \<^verbatim>\<open>strings.ToLower(bioEntry.Op)\<close> with \<^verbatim>\<open>"read"\<close> and
  \<^verbatim>\<open>"write"\<close>. A Go string is a sequence of bytes, and \<^verbatim>\<open>strings.ToLower\<close> is
  \<^verbatim>\<open>strings.Map(unicode.ToLower, s)\<close>: the bytes are decoded as UTF-8 into runes, every
  rune is mapped to its lower case, and the results are encoded as UTF-8 again. (For a
  string of ASCII bytes the library takes a shortcut with the same result; and where an
  older library keeps a byte that is not UTF-8 instead of writing \<^verbatim>\<open>U+FFFD\<close> for it, the
  result has a byte outside ASCII either way.) Bytes and runes are natural numbers
  here.

  \<^verbatim>\<open>utf8.DecodeRuneInString\<close>: the rune at the head of the bytes and its width. A byte that
  does not start a well-formed sequence is the rune \<^verbatim>\<open>U+FFFD\<close> of width 1. \<open>cont\<close> is the
  range of a continuation byte; \<open>second3\<close> and \<open>second4\<close> are the ranges of the second
  byte of a sequence of three and of four bytes, which exclude overlong forms,
  surrogates and runes above \<^verbatim>\<open>U+10FFFF\<close>.
\<close>

definition cont :: "nat \<Rightarrow> bool" where
  "cont b \<longleftrightarrow> 128 \<le> b \<and> b \<le> 191"

definition second3 :: "nat \<Rightarrow> nat \<Rightarrow> bool" where
  "second3 b0 b1 =
     (if b0 = 224 then 160 \<le> b1 \<and> b1 \<le> 191
      else if b0 = 237 then 128 \<le> b1 \<and> b1 \<le> 159
      else cont b1)"

definition second4 :: "nat \<Rightarrow> nat \<Rightarrow> bool" where
  "second4 b0 b1 =
     (if b0 = 240 then 144 \<le> b1 \<and> b1 \<le> 191
      else if b0 = 244 then 128 \<le> b1 \<and> b1 \<le> 143
      else cont b1)"

fun decodeRune :: "nat list \<Rightarrow> nat \<times> nat" where
  "decodeRune [] = (65533, 0)"
| "decodeRune (b0 # bs) =
     (if b0 < 128 then (b0, 1)
      else if 194 \<le> b0 \<and> b0 \<le> 223 then
        (case bs of
           b1 # _ \<Rightarrow> if cont b1 then (b0 mod 32 * 64 + b1 mod 64, 2) else (65533, 1)
         | _ \<Rightarrow> (65533, 1))
      else if 224 \<le> b0 \<and> b0 \<le> 239 then
        (case bs of
           b1 # b2 # _ \<Rightarrow>
             if second3 b0 b1 \<and> cont b2
             then ((b0 mod 16 * 64 + b1 mod 64) * 64 + b2 mod 64, 3) else (65533, 1)
         | _ \<Rightarrow> (65533, 1))
      else if 240 \<le> b0 \<and> b0 \<le> 244 then
        (case bs of
           b1 # b2 # b3 # _ \<Rightarrow>
             if second4 b0 b1 \<and> cont b2 \<and> cont b3
             then (((b0 mod 8 * 64 + b1 mod 64) * 64 + b2 mod 64) * 64 + b3 mod 64, 4)
             else (65533, 1)
         | _ \<Rightarrow> (65533, 1))
      else (65533, 1))"

text \<open>The runes of a string, as the loop \<^verbatim>\<open>for _, c := range s\<close> of \<^verbatim>\<open>strings.Map\<close> sees them.\<close>

fun runes :: "nat list \<Rightarrow> nat list" where
  "runes [] = []"
| "runes (b # bs) = (case decodeRune (b # bs) of (r, w) \<Rightarrow> r # runes (drop (w - 1) bs))"

text \<open>
  \<^verbatim>\<open>utf8.AppendRune\<close>: one to four bytes; a surrogate or a rune above \<^verbatim>\<open>U+10FFFF\<close> is written
  as \<^verbatim>\<open>U+FFFD\<close>, the bytes EF BF BD.
\<close>

definition encodeRune :: "nat \<Rightarrow> nat list" where
  "encodeRune r =
     (if r \<le> 127 then [r]
      else if r \<le> 2047 then [192 + r div 64, 128 + r mod 64]
      else if 1114111 < r \<or> (55296 \<le> r \<and> r \<le> 57343) then [239, 191, 189]
      else if r \<le> 65535 then [224 + r div 4096, 128 + r div 64 mod 64, 128 + r mod 64]
      else [240 + r div 262144, 128 + r div 4096 mod 64, 128 + r div 64 mod 64,
            128 + r mod 64])"

text \<open>
  \<^verbatim>\<open>unicode.ToLower\<close>. On ASCII it moves \<^verbatim>\<open>A\<close> to \<^verbatim>\<open>Z\<close> to \<^verbatim>\<open>a\<close> to \<^verbatim>\<open>z\<close>. Two runes outside
  ASCII have an ASCII letter as their lower case: \<^verbatim>\<open>U+0130\<close> (capital I with a dot above,
  304) becomes \<^verbatim>\<open>i\<close>, and \<^verbatim>\<open>U+212A\<close> (the Kelvin sign, 8490) becomes \<^verbatim>\<open>k\<close>. Every other rune
  is looked up in the case tables of Go's package \<^verbatim>\<open>unicode\<close>, which are not part of this
  repository: \<open>caseTable\<close> is a parameter here. What is used of it is that it sends no
  other rune into ASCII.
\<close>

definition asciiLower :: "nat \<Rightarrow> nat" where
  "asciiLower r = (if 65 \<le> r \<and> r \<le> 90 then r + 32 else r)"

definition lowerRune :: "(nat \<Rightarrow> nat) \<Rightarrow> nat \<Rightarrow> nat" where
  "lowerRune caseTable r =
     (if r \<le> 127 then asciiLower r
      else if r = 304 then 105
      else if r = 8490 then 107
      else caseTable r)"

definition lowerBytes :: "(nat \<Rightarrow> nat) \<Rightarrow> nat list \<Rightarrow> nat list" where
  "lowerBytes caseTable bs = concat (map (\<lambda>r. encodeRune (lowerRune caseTable r)) (runes bs))"

text \<open>\<^verbatim>\<open>strings.ToLower\<close> on a string, whose characters are its bytes.\<close>

definition ToLower :: "(nat \<Rightarrow> nat) \<Rightarrow> string \<Rightarrow> string" where
  "ToLower caseTable s = map char_of (lowerBytes caseTable (map of_char s))"

text \<open>One iteration of the loop of \<^verbatim>\<open>calculateBlockIO\<close>: the switch on the lowered label.\<close>

definition blockIOStep ::
  "(nat \<Rightarrow> nat) \<Rightarrow> uint64 \<times> uint64 \<Rightarrow> BlkioStatEntry \<Rightarrow> uint64 \<times> uint64" where
  "blockIOStep caseTable acc bioEntry =
     (case acc of (blkRead, blkWrite) \<Rightarrow>
        if ToLower caseTable (Op bioEntry) = ''read'' then (blkRead + Value bioEntry, blkWrite)
        else if ToLower caseTable (Op bioEntry) = ''write''
        then (blkRead, blkWrite + Value bioEntry)
        else (blkRead, blkWrite))"

definition calculateBlockIO :: "(nat \<Rightarrow> nat) \<Rightarrow> StatsJSON \<Rightarrow> uint64 \<times> uint64" where
  "calculateBlockIO caseTable stats =
     foldl (blockIOStep caseTable) (0, 0) (IoServiceBytesRecursive (BlkioStats stats))"

section \<open>IEEE 754 binary64 arithmetic\<close>

text \<open>
  Go's \<^verbatim>\<open>float64\<close>. A finite value is the rational number it denotes; the two infinities
  and NaN are values of their own. Every operation computes the exact rational result
  and rounds it to the nearest value with a 53-bit significand, ties to the even
  significand, as IEEE 754 prescribes and Go implements; \<^verbatim>\<open>round64\<close> is that rounding.
  The sign of a zero is not kept: the program never divides by a zero and never
  produces a negative number.
\<close>

datatype float64 = Fin rat | PosInf | NegInf | NaN

text \<open>The exponent of a positive rational: \<open>2 powi ilog2 x \<le> x < 2 powi (ilog2 x + 1)\<close>.\<close>

definition ilog2 :: "rat \<Rightarrow> int" where
  "ilog2 x = (if 1 \<le> x then bitlen \<lfloor>x\<rfloor> - 1 else - bitlen (\<lceil>1 / x\<rceil> - 1))"

text \<open>Rounding to the nearest integer, a tie going to the even one.\<close>

definition roundEven :: "rat \<Rightarrow> int" where
  "roundEven y =
     (let n = \<lfloor>y\<rfloor>; d = y - of_int n
      in if d < 1 / 2 then n else if 1 / 2 < d then n + 1 else if even n then n else n + 1)"

text \<open>
  The spacing of the binary64 values around \<open>x\<close>: 52 bits below the exponent of \<open>x\<close>, and
  never below the spacing \<open>2 powi - 1074\<close> of the subnormal numbers.
\<close>

definition ulp :: "rat \<Rightarrow> rat" where
  "ulp x = 2 powi (max (ilog2 \<bar>x\<bar>) (- 1022) - 52)"

definition round64 :: "rat \<Rightarrow> float64" where
  "round64 x =
     (if x = 0 then Fin 0
      else let r = of_int (roundEven (x / ulp x)) * ulp x
           in if 2 ^ 1024 \<le> r then PosInf else if r \<le> - (2 ^ 1024) then NegInf else Fin r)"

fun fadd :: "float64 \<Rightarrow> float64 \<Rightarrow> float64" where
  "fadd (Fin x) (Fin y) = round64 (x + y)"
| "fadd NaN b = NaN"
| "fadd a NaN = NaN"
| "fadd PosInf NegInf = NaN"
| "fadd NegInf PosInf = NaN"
| "fadd PosInf b = PosInf"
| "fadd a PosInf = PosInf"
| "fadd NegInf b = NegInf"
| "fadd a NegInf = NegInf"

fun fmul :: "float64 \<Rightarrow> float64 \<Rightarrow> float64" where
  "fmul (Fin x) (Fin y) = round64 (x * y)"
| "fmul NaN b = NaN"
| "fmul a NaN = NaN"
| "fmul PosInf (Fin y) = (if y = 0 then NaN else if 0 < y then PosInf else NegInf)"
| "fmul NegInf (Fin y) = (if y = 0 then NaN else if 0 < y then NegInf else PosInf)"
| "fmul (Fin x) PosInf = (if x = 0 then NaN else if 0 < x then PosInf else NegInf)"
| "fmul (Fin x) NegInf = (if x = 0 then NaN else if 0 < x then NegInf else PosInf)"
| "fmul PosInf PosInf = PosInf"
| "fmul NegInf NegInf = PosInf"
| "fmul PosInf NegInf = NegInf"
| "fmul NegInf PosInf = NegInf"

fun fdiv :: "float64 \<Rightarrow> float64 \<Rightarrow> float64" where
  "fdiv (Fin x) (Fin y) =
     (if y = 0 then (if x = 0 then NaN else if 0 < x then PosInf else NegInf)
      else round64 (x / y))"
| "fdiv NaN b = NaN"
| "fdiv a NaN = NaN"
| "fdiv (Fin x) PosInf = Fin 0"
| "fdiv (Fin x) NegInf = Fin 0"
| "fdiv PosInf (Fin y) = (if 0 \<le> y then PosInf else NegInf)"
| "fdiv NegInf (Fin y) = (if 0 \<le> y then NegInf else PosInf)"
| "fdiv PosInf b = NaN"
| "fdiv NegInf b = NaN"

text \<open>The comparison \<^verbatim>\<open>a > b\<close>; it is false as soon as an operand is NaN.\<close>

fun fgt :: "float64 \<Rightarrow> float64 \<Rightarrow> bool" where
  "fgt (Fin x) (Fin y) = (y < x)"
| "fgt NaN b = False"
| "fgt a NaN = False"
| "fgt a PosInf = False"
| "fgt NegInf b = False"
| "fgt PosInf b = True"
| "fgt a NegInf = True"

text \<open>The conversions \<^verbatim>\<open>float64(u)\<close> of a \<^verbatim>\<open>uint64\<close> and \<^verbatim>\<open>float64(n)\<close> of an \<^verbatim>\<open>int\<close>.\<close>

definition float64_of_uint64 :: "uint64 \<Rightarrow> float64" where
  "float64_of_uint64 u = round64 (of_nat (unat u))"

definition float64_of_int :: "int \<Rightarrow> float64" where
  "float64_of_int n = round64 (of_int n)"

section \<open>The metrics calculator\<close>

text \<open>
  \<^verbatim>\<open>calculateCPUPercent\<close>: both differences are taken on \<^verbatim>\<open>uint64\<close> and converted
  afterwards, as the source writes \<^verbatim>\<open>float64(a - b)\<close>.
\<close>

definition calculateCPUPercent :: "StatsJSON \<Rightarrow> float64" where
  "calculateCPUPercent stats =
     (let previousCPU = TotalUsage (CPUUsage (PreCPUStats stats));
          previousSystem = SystemUsage (PreCPUStats stats);
          cpuPercent = Fin 0;
          cpuDelta = float64_of_uint64 (TotalUsage (CPUUsage (CPUStats stats)) - previousCPU);
          systemDelta = float64_of_uint64 (SystemUsage (CPUStats stats) - previousSystem)
      in if fgt systemDelta (Fin 0) \<and> fgt cpuDelta (Fin 0)
         then fmul (fmul (fdiv cpuDelta systemDelta)
                 (float64_of_int (int (length (PercpuUsage (CPUUsage (CPUStats stats)))))))
               (Fin 100)
         else cpuPercent)"

definition calculateMemPercentage :: "StatsJSON \<Rightarrow> float64" where
  "calculateMemPercentage stats =
     (if Limit (MemoryStats stats) \<noteq> 0
      then fmul (fdiv (float64_of_uint64 (Usage (MemoryStats stats)))
                      (float64_of_uint64 (Limit (MemoryStats stats)))) (Fin 100)
      else Fin 0)"

text \<open>One iteration of the loop of \<^verbatim>\<open>calculateNetwork\<close>; the interface name is not read.\<close>

definition networkStep :: "float64 \<times> float64 \<Rightarrow> string \<times> NetworkStats \<Rightarrow> float64 \<times> float64" where
  "networkStep acc entry =
     (case acc of (rx, tx) \<Rightarrow> case entry of (name, v) \<Rightarrow>
        (fadd rx (float64_of_uint64 (RxBytes v)), fadd tx (float64_of_uint64 (TxBytes v))))"

definition calculateNetwork :: "StatsJSON \<Rightarrow> float64 \<times> float64" where
  "calculateNetwork stats = foldl networkStep (Fin 0, Fin 0) (Networks stats)"

section \<open>Building the derived record\<close>

text \<open>
  \<^verbatim>\<open>types.Container\<close> and \<^verbatim>\<open>types.ContainerProcessList\<close> of the Docker API, and the
  \<^verbatim>\<open>Stats\<close> record of this package with the fields that stats.go assigns. \<^verbatim>\<open>ProcessList\<close>
  is a pointer to a list; nil is \<open>None\<close>.
\<close>

record Container =
  ID :: string
  Names :: "string list"
  Command :: string
  State :: string
  Status :: string

record ContainerProcessList =
  Processes :: "string list list"
  Titles :: "string list"

record Stats =
  CID :: string
  Command :: string
  Stats :: StatsJSON
  ProcessList :: "ContainerProcessList option"
  CPUPercentage :: float64
  Memory :: float64
  MemoryLimit :: float64
  MemoryPercentage :: float64
  NetworkRx :: float64
  NetworkTx :: float64
  BlockRead :: float64
  BlockWrite :: float64
  PidsCurrent :: uint64

text \<open>
  \<^verbatim>\<open>buildStats\<close>, statement by statement: the struct literal (every field it does not
  name is zero), the first round of assignments, and the second round that assigns the
  same fields again. \<^verbatim>\<open>TruncateID\<close> is a function of this package that is defined in
  another file; it is a parameter here, and so is the case table that \<^verbatim>\<open>calculateBlockIO\<close>
  needs. \<open>topResult\<close> is the pointer that the caller passes.
\<close>

definition buildStats ::
  "(string \<Rightarrow> string) \<Rightarrow> (nat \<Rightarrow> nat) \<Rightarrow> Container \<Rightarrow> StatsJSON
     \<Rightarrow> ContainerProcessList option \<Rightarrow> Stats" where
  "buildStats TruncateID caseTable container stats topResult =
     (let s = \<lparr>CID = TruncateID (ID container), Command = Container.Command container,
                Stats = stats, ProcessList = topResult,
                CPUPercentage = Fin 0, Memory = Fin 0, MemoryLimit = Fin 0,
                MemoryPercentage = Fin 0, NetworkRx = Fin 0, NetworkTx = Fin 0,
                BlockRead = Fin 0, BlockWrite = Fin 0, PidsCurrent = 0\<rparr>;
          s = s\<lparr>CPUPercentage := calculateCPUPercent stats\<rparr>;
          (br, bw) = calculateBlockIO caseTable stats;
          s = s\<lparr>BlockRead := float64_of_uint64 br\<rparr>;
          s = s\<lparr>BlockWrite := float64_of_uint64 bw\<rparr>;
          s = s\<lparr>Memory := float64_of_uint64 (Usage (MemoryStats stats))\<rparr>;
          s = s\<lparr>MemoryLimit := float64_of_uint64 (Limit (MemoryStats stats))\<rparr>;
          s = s\<lparr>MemoryPercentage := calculateMemPercentage stats\<rparr>;
          (rx, tx) = calculateNetwork stats;
          s = s\<lparr>NetworkRx := rx, NetworkTx := tx\<rparr>;
          memPercent = Fin 0;
          cpuPercent = Fin 0;
          memPercent =
            (if Limit (MemoryStats stats) \<noteq> 0
             then fmul (fdiv (float64_of_uint64 (Usage (MemoryStats stats)))
                             (float64_of_uint64 (Limit (MemoryStats stats)))) (Fin 100)
             else memPercent);
          cpuPercent = calculateCPUPercent stats;
          (blkRead, blkWrite) = calculateBlockIO caseTable stats;
          s = s\<lparr>CPUPercentage := cpuPercent\<rparr>;
          s = s\<lparr>Memory := float64_of_uint64 (Usage (MemoryStats stats))\<rparr>;
          s = s\<lparr>MemoryLimit := float64_of_uint64 (Limit (MemoryStats stats))\<rparr>;
          s = s\<lparr>MemoryPercentage := memPercent\<rparr>;
          (rx2, tx2) = calculateNetwork stats;
          s = s\<lparr>NetworkRx := rx2, NetworkTx := tx2\<rparr>;
          s = s\<lparr>BlockRead := float64_of_uint64 blkRead\<rparr>;
          s = s\<lparr>BlockWrite := float64_of_uint64 blkWrite\<rparr>;
          s = s\<lparr>PidsCurrent := Current (PidsStats stats)\<rparr>
      in s)"

section \<open>The subscription and its sampling goroutine\<close>

text \<open>
  \<^verbatim>\<open>NewStatsChannel\<close> makes two channels and starts one goroutine when the container is
  running, and does neither otherwise. The goroutine is sequential code that blocks at
  six places: in \<^verbatim>\<open>cli.ContainerStats\<close>, in the first \<^verbatim>\<open>dec.Decode\<close>, in the \<^verbatim>\<open>select\<close>, in
  the \<^verbatim>\<open>dec.Decode\<close> of a tick, in \<^verbatim>\<open>daemon.Top\<close> and in the send on \<^verbatim>\<open>stats\<close>. It is
  modelled as a machine whose control state is the place where it blocks and whose
  steps are the events that unblock it; an event that the goroutine is not waiting for
  is not taken (\<open>None\<close>).
\<close>

datatype decoded = DecodeErr | DecodeOk "StatsJSON option"

text \<open>
  \<^item> \<open>OpenReturns bodyNil err\<close>: \<^verbatim>\<open>cli.ContainerStats\<close> returns; \<open>bodyNil\<close> says that the
    \<^verbatim>\<open>Body\<close> of the result is nil, \<open>err\<close> that the error is not nil.
  \<^item> \<open>DecodeReturns r\<close>: \<^verbatim>\<open>dec.Decode(&statsJSON)\<close> returns, with an error (a broken or
    ended stream) or with the new value of \<^verbatim>\<open>statsJSON\<close> (nil after a JSON null).
  \<^item> \<open>Tick\<close>, \<open>CtxDone\<close>, \<open>DoneSignal\<close>: the \<^verbatim>\<open>select\<close> takes the case of \<^verbatim>\<open>timer.C\<close>, of
    \<^verbatim>\<open>ctx.Done()\<close>, of \<^verbatim>\<open>done\<close>. Nothing in this program cancels \<^verbatim>\<open>ctx\<close> before the \<^verbatim>\<open>done\<close>
    case does; the model still lets \<open>CtxDone\<close> happen, so that the branch is covered.
  \<^item> \<open>TopReturns topResult err\<close>: \<^verbatim>\<open>daemon.Top\<close> returns the list \<open>topResult\<close>, with an
    error or not. \<^verbatim>\<open>daemon.Top\<close> is defined in another file; its Go type allows every list
    beside an error. The goroutine drops the error and passes \<^verbatim>\<open>&top\<close> to \<^verbatim>\<open>buildStats\<close>.
  \<^item> \<open>Received\<close>: the consumer receives the value that the goroutine is sending.
\<close>

datatype event =
    OpenReturns bool bool
  | DecodeReturns decoded
  | Tick
  | CtxDone
  | DoneSignal
  | TopReturns ContainerProcessList bool
  | Received

text \<open>What the goroutine does to the outside, in the order in which it does it.\<close>

datatype action = Send Stats | CloseStats | CloseBody | Cancel

datatype pc =
    Opening
  | FirstDecode
  | Select
  | TickDecode
  | TopQuery
  | Sending Stats
  | Exited
  | Panicked

record task =
  container :: Container
  statsJSON :: "StatsJSON option"
  pc :: pc
  actions :: "action list"

text \<open>
  A \<^verbatim>\<open>return\<close> once both calls are deferred: the deferred calls run last in, first out,
  \<^verbatim>\<open>close(stats)\<close> and then \<^verbatim>\<open>responseBody.Close()\<close>. \<open>before\<close> is what the branch does before
  it returns.
\<close>

definition returns :: "task \<Rightarrow> action list \<Rightarrow> task" where
  "returns t before = t\<lparr>pc := Exited, actions := actions t @ before @ [CloseStats, CloseBody]\<rparr>"

text \<open>
  One step. In \<open>Opening\<close>, \<^verbatim>\<open>defer responseBody.Close()\<close> comes before the test of \<^verbatim>\<open>err\<close>:
  with a nil \<^verbatim>\<open>Body\<close> the method value of a nil interface is evaluated and the goroutine
  panics; otherwise an error returns through both deferred calls.
\<close>

fun step :: "(string \<Rightarrow> string) \<Rightarrow> (nat \<Rightarrow> nat) \<Rightarrow> task \<Rightarrow> event \<Rightarrow> task option" where
  "step TruncateID caseTable t e =
     (case pc t of
        Opening \<Rightarrow>
          (case e of
             OpenReturns bodyNil err \<Rightarrow>
               Some (if bodyNil then t\<lparr>pc := Panicked\<rparr>
                     else if err then returns t []
                     else t\<lparr>pc := FirstDecode\<rparr>)
           | _ \<Rightarrow> None)
      | FirstDecode \<Rightarrow>
          (case e of
             DecodeReturns DecodeErr \<Rightarrow> Some (returns t [])
           | DecodeReturns (DecodeOk v) \<Rightarrow> Some (t\<lparr>statsJSON := v, pc := Select\<rparr>)
           | _ \<Rightarrow> None)
      | Select \<Rightarrow>
          (case e of
             Tick \<Rightarrow> Some (t\<lparr>pc := TickDecode\<rparr>)
           | CtxDone \<Rightarrow> Some (returns t [])
           | DoneSignal \<Rightarrow> Some (returns t [Cancel])
           | _ \<Rightarrow> None)
      | TickDecode \<Rightarrow>
          (case e of
             DecodeReturns DecodeErr \<Rightarrow> Some (returns t [])
           | DecodeReturns (DecodeOk None) \<Rightarrow> Some (t\<lparr>statsJSON := None, pc := Select\<rparr>)
           | DecodeReturns (DecodeOk (Some js)) \<Rightarrow> Some (t\<lparr>statsJSON := Some js, pc := TopQuery\<rparr>)
           | _ \<Rightarrow> None)
      | TopQuery \<Rightarrow>
          (case e of
             TopReturns topResult err \<Rightarrow>
               (case statsJSON t of
                  Some js \<Rightarrow>
                    Some (t\<lparr>pc := Sending (buildStats TruncateID caseTable (container t) js
                                          (Some topResult))\<rparr>)
                | None \<Rightarrow> None)
           | _ \<Rightarrow> None)
      | Sending v \<Rightarrow>
          (case e of
             Received \<Rightarrow> Some (t\<lparr>pc := Select, actions := actions t @ [Send v]\<rparr>)
           | _ \<Rightarrow> None)
      | Exited \<Rightarrow> None
      | Panicked \<Rightarrow> None)"

text \<open>A run: the events in turn, as long as each is taken.\<close>

fun run :: "(string \<Rightarrow> string) \<Rightarrow> (nat \<Rightarrow> nat) \<Rightarrow> task \<Rightarrow> event list \<Rightarrow> task option" where
  "run TruncateID caseTable t [] = Some t"
| "run TruncateID caseTable t (e # es) =
     (case step TruncateID caseTable t e of None \<Rightarrow> None | Some t' \<Rightarrow> run TruncateID caseTable t' es)"

text \<open>
  The goroutine as \<^verbatim>\<open>go func() {...}()\<close> starts it: \<^verbatim>\<open>container.Names[0]\<close> is evaluated for
  the call of \<^verbatim>\<open>cli.ContainerStats\<close> and panics on an empty slice.
\<close>

definition startTask :: "Container \<Rightarrow> task" where
  "startTask c =
     \<lparr>container = c, statsJSON = None,
      pc = (if Names c = [] then Panicked else Opening), actions = []\<rparr>"

text \<open>
  The runtime as far as \<^verbatim>\<open>NewStatsChannel\<close> changes it: the channels made so far (a
  channel is its number) and the goroutines started so far.
\<close>

record world =
  nextChan :: nat
  goroutines :: "task list"

record StatsChannel =
  Container :: Container
  Stats_chan :: "nat option"
  Done_chan :: "nat option"

text \<open>
  \<^verbatim>\<open>NewStatsChannel\<close>. \<^verbatim>\<open>IsContainerRunning\<close> is a function of this package that is defined in
  another file; it is a parameter here. A nil channel is \<open>None\<close>.
\<close>

definition NewStatsChannel ::
  "(Container \<Rightarrow> bool) \<Rightarrow> Container \<Rightarrow> world \<Rightarrow> StatsChannel \<times> world" where
  "NewStatsChannel IsContainerRunning c w =
     (if IsContainerRunning c
      then let stats = nextChan w;
               done = nextChan w + 1;
               w' = w\<lparr>nextChan := nextChan w + 2, goroutines := goroutines w @ [startTask c]\<rparr>
           in (\<lparr>Container = c, Stats_chan = Some stats, Done_chan = Some done\<rparr>, w')
      else (\<lparr>Container = c, Stats_chan = None, Done_chan = None\<rparr>, w))"

text \<open>A container for the examples, and a \<^verbatim>\<open>TruncateID\<close> that keeps twelve characters.\<close>

definition exampleContainer :: Container where
  "exampleContainer =
     \<lparr>ID = ''0123456789abcdef0123'', Names = [''/web''], Command = ''nginx'',
      State = ''running'', Status = ''Up 2 hours''\<rparr>"

definition exampleTruncateID :: "string \<Rightarrow> string" where
  "exampleTruncateID s = take 12 s"

section \<open>The formulas of the specification, in exact arithmetic\<close>

text \<open>
  The specification gives both percentages as formulas over the counters. They are
  written here over the integers and the rationals, with no rounding, to be compared
  with what the code computes in \<^verbatim>\<open>float64\<close>.
\<close>

definition cpuPercentSpec :: "int \<Rightarrow> int \<Rightarrow> nat \<Rightarrow> rat" where
  "cpuPercentSpec cpuDelta systemDelta numCores =
     (if 0 < systemDelta \<and> 0 < cpuDelta
      then of_int cpuDelta / of_int systemDelta * of_nat numCores * 100 else 0)"

definition memPercentageSpec :: "nat \<Rightarrow> nat \<Rightarrow> rat" where
  "memPercentageSpec usage limit =
     (if limit \<noteq> 0 then of_nat usage / of_nat limit * 100 else 0)"

text \<open>\<open>approx lo hi a x\<close>: the computed \<open>a\<close> lies between \<open>lo * x\<close> and \<open>hi * x\<close>.\<close>

definition approx :: "rat \<Rightarrow> rat \<Rightarrow> rat \<Rightarrow> rat \<Rightarrow> bool" where
  "approx lo hi a x \<longleftrightarrow> lo * x \<le> a \<and> a \<le> hi * x"

section \<open>Labels without regard to case\<close>

text \<open>
  The specification classifies a label without regard to the case of its letters.
  Written out on the bytes of a label: \<open>sameLetter a c\<close> says that the byte \<open>a\<close> is the
  lower-case letter \<open>c\<close> or its capital, which lies 32 below it. A \<open>readLabel\<close> is one
  of the sixteen spellings of \<^verbatim>\<open>read\<close>. A \<open>writeLabel\<close> is one of the thirty-two spellings
  of \<^verbatim>\<open>write\<close>, or one of the sixteen labels of six bytes that have the two bytes C4 B0,
  the UTF-8 form of \<^verbatim>\<open>U+0130\<close>, in the place of the \<^verbatim>\<open>i\<close>.
\<close>

definition sameLetter :: "char \<Rightarrow> char \<Rightarrow> bool" where
  "sameLetter a c \<longleftrightarrow> a = c \<or> (of_char a :: nat) + 32 = of_char c"

definition readLabel :: "string \<Rightarrow> bool" where
  "readLabel op \<longleftrightarrow> list_all2 sameLetter op ''read''"

definition writeLabel :: "string \<Rightarrow> bool" where
  "writeLabel op \<longleftrightarrow>
     list_all2 sameLetter op ''write''
     \<or> (length op = 6 \<and> list_all2 sameLetter (take 2 op) ''wr''
        \<and> take 2 (drop 2 op) = [CHR 0xC4, CHR 0xB0]
        \<and> list_all2 sameLetter (drop 4 op) ''te'')"

text \<open>
  A case table for the examples: the capital letters of Latin-1 move to their small
  letters, every other rune stays.
\<close>

definition exampleCaseTable :: "nat \<Rightarrow> nat" where
  "exampleCaseTable r = (if 192 \<le> r \<and> r \<le> 222 \<and> r \<noteq> 215 then r + 32 else r)"

section \<open>Snapshots\<close>

text \<open>
  The snapshot of the specification's examples: total usage 200 after 100, system usage
  1000 after 800, two cores, 500 bytes of memory used of 1000, block I/O entries Read 10,
  WRITE 5 and Sync 1, interfaces eth0 (100 received, 50 sent) and eth1 (20 and 10).
\<close>

definition specExample :: StatsJSON where
  "specExample =
     \<lparr>CPUStats = \<lparr>CPUUsage = \<lparr>TotalUsage = 200, PercpuUsage = [120, 80]\<rparr>, SystemUsage = 1000\<rparr>,
      PreCPUStats = \<lparr>CPUUsage = \<lparr>TotalUsage = 100, PercpuUsage = [60, 40]\<rparr>, SystemUsage = 800\<rparr>,
      MemoryStats = \<lparr>Usage = 500, Limit = 1000\<rparr>,
      BlkioStats = \<lparr>IoServiceBytesRecursive =
        [\<lparr>Major = 8, Minor = 0, Op = ''Read'', Value = 10\<rparr>,
         \<lparr>Major = 8, Minor = 0, Op = ''WRITE'', Value = 5\<rparr>,
         \<lparr>Major = 8, Minor = 0, Op = ''Sync'', Value = 1\<rparr>]\<rparr>,
      PidsStats = \<lparr>Current = 3\<rparr>,
      Networks = [(''eth0'', \<lparr>RxBytes = 100, TxBytes = 50\<rparr>),
                  (''eth1'', \<lparr>RxBytes = 20, TxBytes = 10\<rparr>)]\<rparr>"

text \<open>
  A snapshot whose container counter went back between the two readings (200, then 100),
  while the system counter advanced (800, then 1000).
\<close>

definition counterWentBack :: StatsJSON where
  "counterWentBack =
     \<lparr>CPUStats = \<lparr>CPUUsage = \<lparr>TotalUsage = 100, PercpuUsage = [60, 40]\<rparr>, SystemUsage = 1000\<rparr>,
      PreCPUStats = \<lparr>CPUUsage = \<lparr>TotalUsage = 200, PercpuUsage = [120, 80]\<rparr>, SystemUsage = 800\<rparr>,
      MemoryStats = \<lparr>Usage = 500, Limit = 1000\<rparr>,
      BlkioStats = \<lparr>IoServiceBytesRecursive = []\<rparr>,
      PidsStats = \<lparr>Current = 3\<rparr>,
      Networks = []\<rparr>"

text \<open>
  A snapshot with two interfaces whose received bytes add up to \<open>2 ^ 53 + 1\<close>, a number
  that \<^verbatim>\<open>float64\<close> does not have.
\<close>

definition beyondExact :: StatsJSON where
  "beyondExact =
     specExample\<lparr>Networks := [(''eth0'', \<lparr>RxBytes = 9007199254740992, TxBytes = 50\<rparr>),
                              (''eth1'', \<lparr>RxBytes = 1, TxBytes = 10\<rparr>)]\<rparr>"

text \<open>
  A snapshot with one block I/O entry of 7 bytes whose label is WR, the two bytes C4 B0
  of \<^verbatim>\<open>U+0130\<close>, and TE.
\<close>

definition dottedLabel :: StatsJSON where
  "dottedLabel =
     specExample\<lparr>BlkioStats := \<lparr>IoServiceBytesRecursive =
       [\<lparr>Major = 8, Minor = 0,
         Op = [CHR ''W'', CHR ''R'', CHR 0xC4, CHR 0xB0, CHR ''T'', CHR ''E''],
         Value = 7\<rparr>]\<rparr>\<rparr>"

section \<open>A run of the goroutine\<close>

text \<open>
  A run of the goroutine: the stream opens, a first snapshot is decoded, a tick decodes a
  second one, the process-list query fails, the record is received, and the decode of
  the next tick fails. \<open>inFlight\<close> is the goroutine after the first tick: its decode has
  not returned yet.
\<close>

definition exampleRun :: "event list" where
  "exampleRun =
     [OpenReturns False False,
      DecodeReturns (DecodeOk (Some specExample)),
      Tick,
      DecodeReturns (DecodeOk (Some specExample)),
      TopReturns \<lparr>Processes = [], Titles = []\<rparr> True,
      Received,
      Tick,
      DecodeReturns DecodeErr]"

text \<open>A list of one process, for a query that returns a list beside its error.\<close>

definition unfinishedTop :: ContainerProcessList where
  "unfinishedTop = \<lparr>Processes = [[''1'', ''nginx'']], Titles = [''PID'', ''CMD'']\<rparr>"

definition inFlight :: task where
  "inFlight =
     \<lparr>container = exampleContainer, statsJSON = Some specExample, pc = TickDecode, actions = []\<rparr>"

text \<open>
  Both closing actions have happened once when the goroutine has exited, and not at all
  before.
\<close>

definition closedOnce :: "task \<Rightarrow> bool" where
  "closedOnce t \<longleftrightarrow>
     count_list (actions t) CloseStats = (if pc t = Exited then 1 else 0)
     \<and> count_list (actions t) CloseBody = (if pc t = Exited then 1 else 0)"

section \<open>Rounding: exponent, error and exact cases\<close>

lemma ilog2_bounds:
  assumes "0 < x"
  shows "2 powi (ilog2 x) \<le> x" and "x < 2 powi (ilog2 x + 1)"
proof -
  show "2 powi (ilog2 x) \<le> x"
  proof (cases "1 \<le> x")
    case True
    define n where "n = \<lfloor>x\<rfloor>"
    have n: "0 < n" using True by (simp add: n_def)
    have b: "1 \<le> bitlen n" using n bitlen_eq_zero_iff[of n] bitlen_nonneg[of n] by linarith
    have "2 ^ nat (bitlen n - 1) \<le> n" using bitlen_bounds[OF n] by simp
    then have "(of_int (2 ^ nat (bitlen n - 1)) :: rat) \<le> of_int n" by (simp only: of_int_le_iff)
    also have "\<dots> \<le> x" by (simp add: n_def)
    finally show ?thesis using True b by (simp add: ilog2_def n_def[symmetric] power_int_def)
  next
    case False
    define n where "n = \<lceil>1 / x\<rceil> - 1"
    have y: "1 < 1 / x" using False assms by simp
    have n: "0 < n" using y unfolding n_def by linarith
    have "n < 2 ^ nat (bitlen n)" using bitlen_bounds[OF n] by simp
    then have "n + 1 \<le> 2 ^ nat (bitlen n)" by simp
    then have "(of_int (n + 1) :: rat) \<le> of_int (2 ^ nat (bitlen n))" by (simp only: of_int_le_iff)
    moreover have "1 / x \<le> of_int (n + 1)" unfolding n_def by simp
    ultimately have "1 / x \<le> 2 ^ nat (bitlen n)" by simp
    then have "1 \<le> 2 ^ nat (bitlen n) * x" using assms by (simp add: field_simps)
    then have "1 / 2 ^ nat (bitlen n) \<le> x" by (simp add: field_simps)
    moreover have "1 \<le> bitlen n"
      using n bitlen_eq_zero_iff[of n] bitlen_nonneg[of n] by linarith
    ultimately show ?thesis using False
      by (simp add: ilog2_def n_def[symmetric] power_int_def field_simps)
  qed
  show "x < 2 powi (ilog2 x + 1)"
  proof (cases "1 \<le> x")
    case True
    define n where "n = \<lfloor>x\<rfloor>"
    have n: "0 < n" using True by (simp add: n_def)
    have b: "1 \<le> bitlen n" using n bitlen_eq_zero_iff[of n] bitlen_nonneg[of n] by linarith
    have "n < 2 ^ nat (bitlen n)" using bitlen_bounds[OF n] by simp
    then have "n + 1 \<le> 2 ^ nat (bitlen n)" by simp
    then have "(of_int (n + 1) :: rat) \<le> of_int (2 ^ nat (bitlen n))" by (simp only: of_int_le_iff)
    moreover have "x < of_int (n + 1)" unfolding n_def by simp linarith
    ultimately have "x < 2 ^ nat (bitlen n)" by simp
    then show ?thesis using True b by (simp add: ilog2_def n_def[symmetric] power_int_def)
  next
    case False
    define n where "n = \<lceil>1 / x\<rceil> - 1"
    have y: "1 < 1 / x" using False assms by simp
    have n: "0 < n" using y unfolding n_def by linarith
    have b: "1 \<le> bitlen n" using n bitlen_eq_zero_iff[of n] bitlen_nonneg[of n] by linarith
    have "2 ^ nat (bitlen n - 1) \<le> n" using bitlen_bounds[OF n] by simp
    then have "(of_int (2 ^ nat (bitlen n - 1)) :: rat) \<le> of_int n" by (simp only: of_int_le_iff)
    then have "(2::rat) ^ nat (bitlen n - 1) \<le> of_int n" by simp
    moreover have "of_int n < 1 / x" unfolding n_def by simp linarith
    ultimately have "2 ^ nat (bitlen n - 1) < 1 / x" by linarith
    then have "2 ^ nat (bitlen n - 1) * x < 1" using assms by (simp add: field_simps)
    then have "x < 1 / 2 ^ nat (bitlen n - 1)" by (simp add: field_simps)
    moreover have "(2::rat) powi (- bitlen n + 1) = 1 / 2 ^ nat (bitlen n - 1)"
      using b by (simp add: power_int_def field_simps) 
    ultimately show ?thesis using False 
      by (simp add: ilog2_def n_def[symmetric])
  qed
qed

lemma roundEven_of_int: "roundEven (of_int k) = k"
  by (simp add: roundEven_def)

lemma roundEven_err: "\<bar>of_int (roundEven y) - y\<bar> \<le> 1 / 2"
proof -
  have "of_int \<lfloor>y\<rfloor> \<le> y" "y < of_int \<lfloor>y\<rfloor> + 1" by linarith+
  then show ?thesis
    unfolding roundEven_def Let_def by (auto simp: abs_le_iff)
qed

lemma roundEven_ge: "of_int k \<le> y \<Longrightarrow> k \<le> roundEven y"
proof -
  assume "of_int k \<le> y"
  then have "k \<le> \<lfloor>y\<rfloor>" by (simp add: le_floor_iff)
  then show ?thesis unfolding roundEven_def Let_def by auto
qed

lemma roundEven_le: "y \<le> of_int k \<Longrightarrow> roundEven y \<le> k"
proof -
  assume a: "y \<le> of_int k"
  have f: "of_int \<lfloor>y\<rfloor> \<le> y" by simp
  show ?thesis
  proof (cases "y = of_int k")
    case True
    then show ?thesis by (simp add: roundEven_of_int)
  next
    case False
    then have "y < of_int k" using a by simp
    then have "\<lfloor>y\<rfloor> < k" by (simp add: floor_less_iff)
    then show ?thesis unfolding roundEven_def Let_def by auto
  qed
qed

lemma ilog2_ge: "0 < x \<Longrightarrow> 2 powi a \<le> x \<Longrightarrow> a \<le> ilog2 x"
proof (rule ccontr)
  assume x: "0 < x" and a: "2 powi a \<le> x" and n: "\<not> a \<le> ilog2 x"
  then have "ilog2 x + 1 \<le> a" by simp
  then have "(2::rat) powi (ilog2 x + 1) \<le> 2 powi a" by (intro power_int_increasing) auto
  with a ilog2_bounds(2)[OF x] show False by linarith
qed

lemma ilog2_less: "0 < x \<Longrightarrow> x < 2 powi b \<Longrightarrow> ilog2 x < b"
proof (rule ccontr)
  assume x: "0 < x" and b: "x < 2 powi b" and n: "\<not> ilog2 x < b"
  then have "b \<le> ilog2 x" by simp
  then have "(2::rat) powi b \<le> 2 powi (ilog2 x)" by (intro power_int_increasing) auto
  with b ilog2_bounds(1)[OF x] show False by linarith
qed

lemma powi_split: "(2::rat) powi e = 2 ^ 52 * 2 powi (e - 52)"
proof -
  have "(2::rat) powi e = 2 powi (52 + (e - 52))" by simp
  also have "\<dots> = 2 powi 52 * 2 powi (e - 52)" by (subst power_int_add) auto
  finally show ?thesis by simp
qed

lemma round64_binade:
  assumes x: "0 < x" and lo: "- 1022 \<le> ilog2 x" and hi: "ilog2 x < 1023"
  shows "\<exists>r. round64 x = Fin r \<and> 2 powi (ilog2 x) \<le> r \<and> r \<le> 2 powi (ilog2 x + 1)
            \<and> \<bar>r - x\<bar> \<le> 2 powi (ilog2 x - 52) / 2"
proof -
  define e where "e = ilog2 x"
  define u where "u = (2::rat) powi (e - 52)"
  define k where "k = roundEven (x / u)"
  have u: "0 < u" by (simp add: u_def)
  have ulp: "ulp x = u" using x lo by (simp add: ulp_def u_def e_def max_def)
  have e1: "2 powi e = 2 ^ 52 * u" unfolding u_def by (rule powi_split)
  have e2: "2 powi (e + 1) = 2 ^ 53 * u"
    using powi_split[of "e + 1"] power_int_add[of "2::rat" "e - 52" 1] by (simp add: u_def)
  have "2 ^ 52 * u \<le> x" using ilog2_bounds(1)[OF x] e1 by (simp add: e_def)
  then have m1: "of_int (2 ^ 52) \<le> x / u" using u by (simp add: field_simps)
  have "x < 2 ^ 53 * u" using ilog2_bounds(2)[OF x] e2 by (simp add: e_def)
  then have m2: "x / u \<le> of_int (2 ^ 53)" using u by (simp add: field_simps)
  have k1: "2 ^ 52 \<le> k" unfolding k_def by (rule roundEven_ge[OF m1])
  have k2: "k \<le> 2 ^ 53" unfolding k_def by (rule roundEven_le[OF m2])
  define r where "r = of_int k * u"
  have "(of_int (2 ^ 52) :: rat) \<le> of_int k" using k1 by (simp only: of_int_le_iff)
  then have r1: "2 powi e \<le> r" using u unfolding r_def e1 by (intro mult_right_mono) auto
  have "(of_int k :: rat) \<le> of_int (2 ^ 53)" using k2 by (simp only: of_int_le_iff)
  then have r2: "r \<le> 2 powi (e + 1)" using u unfolding r_def e2 by (intro mult_right_mono) auto
  have "\<bar>of_int k - x / u\<bar> * u \<le> 1 / 2 * u"
    using roundEven_err[of "x / u"] u unfolding k_def by (intro mult_right_mono) auto
  moreover have "\<bar>of_int k - x / u\<bar> * u = \<bar>r - x\<bar>"
  proof -
    have "\<bar>of_int k - x / u\<bar> * u = \<bar>(of_int k - x / u) * u\<bar>" using u by (simp add: abs_mult)
    also have "(of_int k - x / u) * u = r - x" using u by (simp add: r_def field_simps)
    finally show ?thesis .
  qed
  ultimately have r3: "\<bar>r - x\<bar> \<le> u / 2" by simp
  have "(2::rat) powi (e + 1) \<le> 2 powi 1023" using hi by (intro power_int_increasing) (auto simp: e_def)
  then have "r \<le> 2 ^ 1023" using r2 by simp
  then have r4: "r < 2 ^ 1024" by (simp add: order.strict_trans1)
  have "(0::rat) < 2 powi e" by simp
  then have r5: "0 < r" using r1 by linarith
  have "round64 x = Fin r"
    using x r4 r5 by (simp add: round64_def ulp k_def[symmetric] r_def[symmetric] Let_def)
  then show ?thesis using r1 r2 r3 by (auto simp: e_def u_def)
qed

lemma round64_exact:
  assumes x: "0 < x" and hi: "x < 2 ^ 1024" and k: "x / ulp x = of_int k"
  shows "round64 x = Fin x"
proof -
  have u: "ulp x \<noteq> 0" by (simp add: ulp_def)
  have "of_int k * ulp x = x" using k u by (simp add: field_simps)
  then show ?thesis using x hi by (simp add: round64_def k roundEven_of_int)
qed

lemma ilog2_powi: "ilog2 (2 powi b) = b"
proof -
  have p: "(0::rat) < 2 powi b" by simp
  have "b \<le> ilog2 (2 powi b)" by (rule ilog2_ge[OF p]) simp
  moreover have "ilog2 (2 powi b) < b + 1"
    by (rule ilog2_less[OF p]) (intro power_int_strict_increasing, auto)
  ultimately show ?thesis by simp
qed

lemma round64_powi:
  assumes "- 1022 \<le> b" "b \<le> 1023"
  shows "round64 (2 powi b) = Fin (2 powi b)"
proof (rule round64_exact)
  show "(0::rat) < 2 powi b" by simp
  have "(2::rat) powi b \<le> 2 powi 1023" using assms by (intro power_int_increasing) auto
  then show "(2::rat) powi b < 2 ^ 1024" by (simp add: order.strict_trans1)
  have "ulp (2 powi b) = 2 powi (b - 52)" using assms by (simp add: ulp_def ilog2_powi max_def)
  then show "2 powi b / ulp (2 powi b) = of_int (2 ^ 52)"
    using powi_split[of b] by simp
qed

lemma round64_between:
  assumes lo: "2 powi a \<le> x" and hi: "x \<le> 2 powi b" and a: "- 1022 \<le> a" and b: "b \<le> 1023"
  shows "\<exists>r. round64 x = Fin r \<and> 2 powi a \<le> r \<and> r \<le> 2 powi b \<and> \<bar>r - x\<bar> \<le> x / 2 ^ 53"
proof -
  have x: "0 < x" using lo by (rule order.strict_trans2[rotated]) simp
  have ea: "a \<le> ilog2 x" by (rule ilog2_ge[OF x lo])
  show ?thesis
  proof (cases "x = 2 powi b")
    case True
    have "a \<le> b" using ea by (simp add: True ilog2_powi)
    then have "round64 x = Fin x" unfolding True using a b by (intro round64_powi) auto
    then show ?thesis using lo hi x by simp
  next
    case False
    then have "x < 2 powi b" using hi by simp
    then have eb: "ilog2 x < b" by (rule ilog2_less[OF x])
    obtain r where r: "round64 x = Fin r" "2 powi (ilog2 x) \<le> r" "r \<le> 2 powi (ilog2 x + 1)"
        "\<bar>r - x\<bar> \<le> 2 powi (ilog2 x - 52) / 2"
      using round64_binade[OF x] ea eb a b by auto
    have "(2::rat) powi a \<le> 2 powi (ilog2 x)" using ea by (intro power_int_increasing) auto
    then have r1: "2 powi a \<le> r" using r(2) by simp
    have "(2::rat) powi (ilog2 x + 1) \<le> 2 powi b" using eb by (intro power_int_increasing) auto
    then have r2: "r \<le> 2 powi b" using r(3) by simp
    have "(2::rat) powi (ilog2 x - 52) / 2 = 2 powi (ilog2 x) / 2 ^ 53"
      using powi_split[of "ilog2 x"] by simp
    also have "\<dots> \<le> x / 2 ^ 53" using ilog2_bounds(1)[OF x] by (simp add: divide_right_mono)
    finally have "\<bar>r - x\<bar> \<le> x / 2 ^ 53" using r(4) by simp
    then show ?thesis using r(1) r1 r2 by simp
  qed
qed

lemma round64_of_nat_exact:
  assumes "n \<le> 2 ^ 53"
  shows "round64 (of_nat n) = Fin (of_nat n)"
proof (cases "n = 0")
  case True
  then show ?thesis by (simp add: round64_def)
next
  case False
  define x :: rat where "x = of_nat n"
  have x: "0 < x" using False by (simp add: x_def)
  have x1: "2 powi 0 \<le> x" using False by (simp add: x_def)
  have x53: "x \<le> 2 ^ 53" using assms unfolding x_def
    by (metis of_nat_le_iff of_nat_numeral of_nat_power)
  have e0: "0 \<le> ilog2 x" by (rule ilog2_ge[OF x x1])
  have "x < 2 powi 54" using x53 by (simp add: order.strict_trans1)
  then have e54: "ilog2 x < 54" by (rule ilog2_less[OF x])
  have u: "ulp x = 2 powi (ilog2 x - 52)" using x e0 by (simp add: ulp_def max_def)
  have hi: "x < 2 ^ 1024" using x53 by (simp add: order.strict_trans1)
  have "\<exists>k. x / ulp x = of_int k"
  proof (cases "ilog2 x \<le> 52")
    case True
    have "x / ulp x = x * 2 powi (52 - ilog2 x)"
      unfolding u by (simp add: power_int_diff field_simps)
    also have "\<dots> = of_int (int n * 2 ^ nat (52 - ilog2 x))"
      using True by (simp add: x_def power_int_def)
    finally show ?thesis by blast
  next
    case False
    then have e: "ilog2 x = 53" using e54 by simp
    have "2 powi 53 \<le> x" using ilog2_bounds(1)[OF x] by (simp add: e)
    then have "x = 2 ^ 53" using x53 by simp
    then have "x / ulp x = of_int (2 ^ 52)" unfolding u e by simp
    then show ?thesis by blast
  qed
  then obtain k where "x / ulp x = of_int k" by blast
  then show ?thesis using round64_exact[OF x hi] by (simp add: x_def)
qed

section \<open>Rounding certificates and the conversions\<close>

lemma roundEven_near: "\<bar>y - of_int k\<bar> < 1 / 2 \<Longrightarrow> roundEven y = k"
proof -
  assume a: "\<bar>y - of_int k\<bar> < 1 / 2"
  show ?thesis
  proof (cases "of_int k \<le> y")
    case True
    then have "\<lfloor>y\<rfloor> = k" using a by (intro floor_unique) auto
    then show ?thesis using a True by (simp add: roundEven_def)
  next
    case False
    then have "\<lfloor>y\<rfloor> = k - 1" using a by (intro floor_unique) auto
    then show ?thesis using a False by (simp add: roundEven_def)
  qed
qed

lemma roundEven_half: "roundEven (of_int k + 1 / 2) = (if even k then k else k + 1)"
proof -
  have "\<lfloor>(of_int k :: rat) + 1 / 2\<rfloor> = k" by (intro floor_unique) auto
  then show ?thesis by (simp add: roundEven_def)
qed

lemma ilog2_eq: "2 powi e \<le> x \<Longrightarrow> x < 2 powi (e + 1) \<Longrightarrow> ilog2 x = e"
proof -
  assume lo: "2 powi e \<le> x" and hi: "x < 2 powi (e + 1)"
  have x: "0 < x" using lo by (rule order.strict_trans2[rotated]) simp
  show ?thesis using ilog2_ge[OF x lo] ilog2_less[OF x hi] by simp
qed

lemma round64_cert:
  assumes "2 powi e \<le> x" and "x < 2 powi (e + 1)" and "- 1022 \<le> e"
    and "roundEven (x / 2 powi (e - 52)) = k" and "r = of_int k * 2 powi (e - 52)"
    and "0 < r" and "r < 2 ^ 1024"
  shows "round64 x = Fin r"
proof -
  have x: "0 < x" using assms(1) by (rule order.strict_trans2[rotated]) simp
  have "ilog2 x = e" using assms(1,2) by (rule ilog2_eq)
  then have "ulp x = 2 powi (e - 52)" using x assms(3) by (simp add: ulp_def max_def)
  then show ?thesis using x assms(4-7) by (simp add: round64_def)
qed

lemma float64_of_uint64_zero: "float64_of_uint64 0 = Fin 0"
  by (simp add: float64_of_uint64_def round64_def)

lemma float64_of_uint64_pos:
  assumes "u \<noteq> 0"
  shows "\<exists>r. float64_of_uint64 u = Fin r \<and> 1 \<le> r \<and> r \<le> 2 ^ 64
           \<and> \<bar>r - of_nat (unat u)\<bar> \<le> of_nat (unat u) / 2 ^ 53"
proof -
  have "1 \<le> unat u" using assms by (simp add: unat_gt_0 Suc_leI)
  then have "(of_nat 1 :: rat) \<le> of_nat (unat u)" by (simp only: of_nat_le_iff)
  then have lo: "2 powi 0 \<le> (of_nat (unat u) :: rat)" by (simp only: power_int_0_right of_nat_1)
  have "unat u < 2 ^ 64" using unsigned_less[of u, where 'a = nat] by simp
  then have "(of_nat (unat u) :: rat) < of_nat (2 ^ 64)" by (simp only: of_nat_less_iff)
  then have hi: "(of_nat (unat u) :: rat) \<le> 2 powi 64" by simp
  show ?thesis using round64_between[OF lo hi] by (simp add: float64_of_uint64_def)
qed

lemma float64_of_uint64_sub:
  assumes "unat b \<le> unat a"
  shows "float64_of_uint64 (a - b) = float64_of_int (uint a - uint b)"
proof -
  have "b \<le> a" using assms by (simp add: word_le_nat_alt)
  then have "unat (a - b) = unat a - unat b" by (rule unat_sub)
  moreover have "(of_int (int (unat a) - int (unat b)) :: rat) = of_nat (unat a - unat b)"
    using assms by (simp only: of_nat_diff[symmetric] of_int_of_nat_eq)
  moreover have "uint a = int (unat a)" "uint b = int (unat b)" by simp_all
  ultimately show ?thesis by (simp only: float64_of_uint64_def float64_of_int_def)
qed

lemma float64_of_uint64_gt:
  "fgt (float64_of_uint64 u) (Fin 0) \<longleftrightarrow> u \<noteq> 0"
proof (cases "u = 0")
  case True
  then show ?thesis by (simp add: float64_of_uint64_zero)
next
  case False
  then obtain r where "float64_of_uint64 u = Fin r" "1 \<le> r"
    using float64_of_uint64_pos by blast
  then show ?thesis using False by simp
qed

lemma float64_of_int_exact: "0 \<le> n \<Longrightarrow> n \<le> 2 ^ 53 \<Longrightarrow> float64_of_int n = Fin (of_int n)"
proof -
  assume n: "0 \<le> n" "n \<le> 2 ^ 53"
  have "nat n \<le> 2 ^ 53" using n by (simp add: nat_le_iff)
  then have "round64 (of_nat (nat n)) = Fin (of_nat (nat n))" by (rule round64_of_nat_exact)
  moreover have "(of_nat (nat n) :: rat) = of_int n" using n by simp
  ultimately show ?thesis by (simp add: float64_of_int_def)
qed

lemma float64_of_uint64_exact: "unat u \<le> 2 ^ 53 \<Longrightarrow> float64_of_uint64 u = Fin (of_nat (unat u))"
  unfolding float64_of_uint64_def by (rule round64_of_nat_exact)

section \<open>Relative error of a computation\<close>

lemma approx_exact: "approx 1 1 x x"
  by (simp add: approx_def)

lemma approx_round:
  assumes "approx lo hi x y" and "0 \<le> lo" and "0 \<le> y" and "\<bar>r - x\<bar> \<le> x / 2 ^ 53"
  shows "approx (lo * (1 - 1 / 2 ^ 53)) (hi * (1 + 1 / 2 ^ 53)) r y"
proof -
  have x: "lo * y \<le> x" "x \<le> hi * y" using assms(1) by (simp_all add: approx_def)
  have x0: "0 \<le> x" using x(1) assms(2,3) by (meson mult_nonneg_nonneg order_trans)
  have d: "x - r \<le> x / 2 ^ 53" "r - x \<le> x / 2 ^ 53" using assms(4) by linarith+
  have e: "x * (1 - 1 / 2 ^ 53) = x - x / 2 ^ 53" "x * (1 + 1 / 2 ^ 53) = x + x / 2 ^ 53"
    by (simp_all add: algebra_simps)
  have "x * (1 - 1 / 2 ^ 53) \<le> r" using d(1) unfolding e by linarith
  moreover have "(lo * y) * (1 - 1 / 2 ^ 53) \<le> x * (1 - 1 / 2 ^ 53)"
    using x(1) by (intro mult_right_mono) auto
  ultimately have 1: "lo * (1 - 1 / 2 ^ 53) * y \<le> r" by (simp add: mult.assoc mult.commute mult.left_commute)
  have "r \<le> x * (1 + 1 / 2 ^ 53)" using d(2) unfolding e by linarith
  moreover have "x * (1 + 1 / 2 ^ 53) \<le> (hi * y) * (1 + 1 / 2 ^ 53)"
    using x(2) by (intro mult_right_mono) auto
  ultimately have 2: "r \<le> hi * (1 + 1 / 2 ^ 53) * y" by (simp add: mult.assoc mult.commute mult.left_commute)
  show ?thesis using 1 2 by (simp add: approx_def)
qed

lemma approx_mult:
  assumes "approx l1 h1 a x" and "approx l2 h2 b y"
    and "0 \<le> l1" and "0 \<le> l2" and "0 \<le> x" and "0 \<le> y"
  shows "approx (l1 * l2) (h1 * h2) (a * b) (x * y)"
proof -
  have a: "l1 * x \<le> a" "a \<le> h1 * x" using assms(1) by (simp_all add: approx_def)
  have b: "l2 * y \<le> b" "b \<le> h2 * y" using assms(2) by (simp_all add: approx_def)
  have a0: "0 \<le> l1 * x" using assms by simp
  have b0: "0 \<le> l2 * y" using assms by simp
  have "(l1 * x) * (l2 * y) \<le> a * b" using a(1) b(1) a0 b0 by (intro mult_mono) auto
  moreover have "a * b \<le> (h1 * x) * (h2 * y)" using a b a0 b0 by (intro mult_mono) auto
  ultimately show ?thesis by (simp add: approx_def mult_ac)
qed

lemma approx_div:
  assumes "approx l1 h1 a x" and "approx l2 h2 b y"
    and "0 \<le> l1" and "0 < l2" and "0 \<le> x" and "0 < y"
  shows "approx (l1 / h2) (h1 / l2) (a / b) (x / y)"
proof -
  have a: "l1 * x \<le> a" "a \<le> h1 * x" using assms(1) by (simp_all add: approx_def)
  have b: "l2 * y \<le> b" "b \<le> h2 * y" using assms(2) by (simp_all add: approx_def)
  have a0: "0 \<le> l1 * x" using assms by simp
  have b0: "0 < l2 * y" using assms by simp
  have b1: "0 < b" using b(1) b0 by simp
  have "(l1 * x) / (h2 * y) \<le> a / b" using a(1) b(2) a0 b1 by (intro frac_le) auto
  moreover have "a / b \<le> (h1 * x) / (l2 * y)" using a b a0 b0 by (intro frac_le) auto
  ultimately show ?thesis by (simp add: approx_def)
qed

lemma approx_tolerance:
  assumes "approx lo hi p x" and "1 - d \<le> lo" and "hi \<le> 1 + d" and "0 \<le> x"
  shows "\<bar>p - x\<bar> \<le> d * x"
proof -
  have p: "lo * x \<le> p" "p \<le> hi * x" using assms(1) by (simp_all add: approx_def)
  have "(1 - d) * x \<le> lo * x" using assms(2,4) by (intro mult_right_mono) auto
  moreover have "hi * x \<le> (1 + d) * x" using assms(3,4) by (intro mult_right_mono) auto
  ultimately show ?thesis using p by (simp add: abs_le_iff algebra_simps)
qed

lemma round64_approx:
  assumes "2 powi a \<le> x" and "x \<le> 2 powi b" and "- 1022 \<le> a" and "b \<le> 1023"
    and "approx lo hi x y" and "0 \<le> lo" and "0 \<le> y"
  shows "\<exists>r. round64 x = Fin r \<and> 2 powi a \<le> r \<and> r \<le> 2 powi b
           \<and> approx (lo * (1 - 1 / 2 ^ 53)) (hi * (1 + 1 / 2 ^ 53)) r y"
proof -
  obtain r where r: "round64 x = Fin r" "2 powi a \<le> r" "r \<le> 2 powi b" "\<bar>r - x\<bar> \<le> x / 2 ^ 53"
    using round64_between[OF assms(1-4)] by blast
  show ?thesis using r(1-3) approx_round[OF assms(5-7) r(4)] by blast
qed

lemma float64_of_uint64_approx:
  assumes "u \<noteq> 0"
  shows "\<exists>r. float64_of_uint64 u = Fin r \<and> 2 powi 0 \<le> r \<and> r \<le> 2 powi 64
           \<and> approx (1 * (1 - 1 / 2 ^ 53)) (1 * (1 + 1 / 2 ^ 53)) r (of_nat (unat u))"
proof -
  have "1 \<le> unat u" using assms by (simp add: unat_gt_0 Suc_leI)
  then have "(of_nat 1 :: rat) \<le> of_nat (unat u)" by (simp only: of_nat_le_iff)
  then have lo: "2 powi 0 \<le> (of_nat (unat u) :: rat)" by (simp only: power_int_0_right of_nat_1)
  have "unat u < 2 ^ 64" using unsigned_less[of u, where 'a = nat] by simp
  then have "(of_nat (unat u) :: rat) < of_nat (2 ^ 64)" by (simp only: of_nat_less_iff)
  then have hi: "(of_nat (unat u) :: rat) \<le> 2 powi 64" by simp
  have y: "(0::rat) \<le> of_nat (unat u)" by (simp only: of_nat_0_le_iff)
  show ?thesis
    unfolding float64_of_uint64_def
    by (rule round64_approx[OF lo hi _ _ approx_exact _ y]) simp_all
qed

lemma pos_of_powi: "2 powi a \<le> (x::rat) \<Longrightarrow> 0 < x"
proof -
  assume "2 powi a \<le> x"
  moreover have "(0::rat) < 2 powi a" by simp
  ultimately show ?thesis by linarith
qed

lemma of_nat_unat_pos: "w \<noteq> 0 \<Longrightarrow> (0::rat) < of_nat (unat w)"
  by (metis of_nat_0_less_iff unat_gt_0)

lemma powi_mult_le:
  assumes "2 powi a \<le> x" and "2 powi b \<le> (y::rat)"
  shows "2 powi (a + b) \<le> x * y"
proof -
  have "(2::rat) powi (a + b) = 2 powi a * 2 powi b" by (subst power_int_add) auto
  also have "\<dots> \<le> x * y"
    using assms pos_of_powi[OF assms(1)] by (intro mult_mono) auto
  finally show ?thesis .
qed

lemma mult_le_powi:
  assumes "0 \<le> x" and "x \<le> 2 powi a" and "0 \<le> y" and  "y \<le> (2::rat) powi b"
  shows "x * y \<le> 2 powi (a + b)"
proof -
  have "x * y \<le> 2 powi a * 2 powi b" using assms by (intro mult_mono) auto
  also have "\<dots> = (2::rat) powi (a + b)" by (subst power_int_add) auto
  finally show ?thesis .
qed

lemma powi_div_le:
  assumes "2 powi a \<le> x" and "0 < y" and "y \<le> (2::rat) powi b"
  shows "2 powi (a - b) \<le> x / y"
proof -
  have "(2::rat) powi (a - b) = 2 powi a / 2 powi b" by (subst power_int_diff) auto
  also have "\<dots> \<le> x / y"
    using assms pos_of_powi[OF assms(1)] by (intro frac_le) auto
  finally show ?thesis .
qed

lemma div_le_powi:
  assumes "0 \<le> x" and "x \<le> 2 powi a" and "2 powi b \<le> (y::rat)"
  shows "x / y \<le> 2 powi (a - b)"
proof -
  have "x / y \<le> 2 powi a / 2 powi b" using assms by (intro frac_le) auto
  also have "\<dots> = (2::rat) powi (a - b)" by (subst power_int_diff) auto
  finally show ?thesis .
qed

lemma fdiv_counters_approx:
  assumes a0: "a \<noteq> 0" and b0: "b \<noteq> 0"
  shows "\<exists>Q. fdiv (float64_of_uint64 a) (float64_of_uint64 b) = Fin Q
           \<and> 2 powi (- 64) \<le> Q \<and> Q \<le> 2 powi 64
           \<and> approx ((1 - 1 / 2 ^ 53) / (1 + 1 / 2 ^ 53) * (1 - 1 / 2 ^ 53))
                     ((1 + 1 / 2 ^ 53) / (1 - 1 / 2 ^ 53) * (1 + 1 / 2 ^ 53))
                     Q (of_nat (unat a) / of_nat (unat b))"
proof -
  define u :: rat where "u = of_nat (unat a)"
  define l :: rat where "l = of_nat (unat b)"
  obtain L where L: "float64_of_uint64 b = Fin L" "2 powi 0 \<le> L" "L \<le> 2 powi 64"
      "approx (1 * (1 - 1 / 2 ^ 53)) (1 * (1 + 1 / 2 ^ 53)) L l"
    using float64_of_uint64_approx[OF b0] unfolding l_def by blast
  obtain U where U: "float64_of_uint64 a = Fin U" "2 powi 0 \<le> U" "U \<le> 2 powi 64"
      "approx (1 * (1 - 1 / 2 ^ 53)) (1 * (1 + 1 / 2 ^ 53)) U u"
    using float64_of_uint64_approx[OF a0] unfolding u_def by blast
  have Lpos: "0 < L" using L(2) by (rule pos_of_powi)
  have Upos: "0 < U" using U(2) by (rule pos_of_powi)
  have lpos: "0 < l" unfolding l_def using b0 by (rule of_nat_unat_pos)
  have upos: "0 \<le> u" unfolding u_def by (simp only: of_nat_0_le_iff)
  have q1: "2 powi (0 - 64) \<le> U / L" using U(2) Lpos L(3) by (rule powi_div_le)
  have q2: "U / L \<le> 2 powi (64 - 0)" using Upos U(3) L(2) by (intro div_le_powi) auto
  have qa: "approx (1 * (1 - 1 / 2 ^ 53) / (1 * (1 + 1 / 2 ^ 53)))
                   (1 * (1 + 1 / 2 ^ 53) / (1 * (1 - 1 / 2 ^ 53))) (U / L) (u / l)"
    using U(4) L(4) _ _ upos lpos by (rule approx_div) simp_all
  have ql: "0 \<le> u / l" using upos lpos by simp
  obtain Q where Q: "round64 (U / L) = Fin Q" "2 powi (0 - 64) \<le> Q" "Q \<le> 2 powi (64 - 0)"
      "approx (1 * (1 - 1 / 2 ^ 53) / (1 * (1 + 1 / 2 ^ 53)) * (1 - 1 / 2 ^ 53))
              (1 * (1 + 1 / 2 ^ 53) / (1 * (1 - 1 / 2 ^ 53)) * (1 + 1 / 2 ^ 53)) Q (u / l)"
    using round64_approx[OF q1 q2 _ _ qa _ ql] by auto
  have "fdiv (float64_of_uint64 a) (float64_of_uint64 b) = Fin Q"
    using L(1) U(1) Lpos Q(1) by simp
  moreover have "approx ((1 - 1 / 2 ^ 53) / (1 + 1 / 2 ^ 53) * (1 - 1 / 2 ^ 53))
                     ((1 + 1 / 2 ^ 53) / (1 - 1 / 2 ^ 53) * (1 + 1 / 2 ^ 53)) Q (u / l)"
    using Q(4) by (simp only: mult_1)
  ultimately show ?thesis using Q(2,3) by (simp add: u_def l_def)
qed

lemma fmul_100_approx:
  assumes x1: "2 powi a \<le> x" and x2: "x \<le> 2 powi b" and a: "- 1022 \<le> a + 6" and b: "b + 7 \<le> 1023"
    and ap: "approx lo hi x y" and lo: "0 \<le> lo" and y: "0 \<le> y"
  shows "\<exists>P. fmul (Fin x) (Fin 100) = Fin P
           \<and> approx (lo * (1 - 1 / 2 ^ 53)) (hi * (1 + 1 / 2 ^ 53)) P (y * 100)"
proof -
  have xpos: "0 < x" using x1 by (rule pos_of_powi)
  have c: "2 powi 6 \<le> (100::rat)" "(100::rat) \<le> 2 powi 7" by simp_all
  have p1: "2 powi (a + 6) \<le> x * 100" using x1 c(1) by (rule powi_mult_le)
  have p2: "x * 100 \<le> 2 powi (b + 7)" using xpos x2 c(2) by (intro mult_le_powi) auto
  have "approx (lo * 1) (hi * 1) (x * 100) (y * 100)"
    using ap approx_exact lo _ y by (rule approx_mult) simp_all
  then have pa: "approx lo hi (x * 100) (y * 100)" by (simp only: mult_1_right)
  have pl: "0 \<le> y * 100" using y by (intro mult_nonneg_nonneg) simp_all
  obtain P where P: "round64 (x * 100) = Fin P"
      "approx (lo * (1 - 1 / 2 ^ 53)) (hi * (1 + 1 / 2 ^ 53)) P (y * 100)"
    using round64_approx[OF p1 p2 a b pa lo pl] by auto
  then show ?thesis by simp
qed

section \<open>Decoding and encoding runes\<close>

lemma m32: "192 \<le> b \<Longrightarrow> b \<le> 223 \<Longrightarrow> b mod 32 = b - (192::nat)"
  by (rule mod_nat_eqI) auto
lemma m16: "224 \<le> b \<Longrightarrow> b \<le> 239 \<Longrightarrow> b mod 16 = b - (224::nat)"
  by (rule mod_nat_eqI) auto
lemma m8: "240 \<le> b \<Longrightarrow> b \<le> 247 \<Longrightarrow> b mod 8 = b - (240::nat)"
  by (rule mod_nat_eqI) auto
lemma m64: "128 \<le> b \<Longrightarrow> b \<le> 191 \<Longrightarrow> b mod 64 = b - (128::nat)"
  by (rule mod_nat_eqI) auto

lemma encodeRune_ascii: "r \<le> 127 \<Longrightarrow> encodeRune r = [r]"
  by (simp add: encodeRune_def)

lemma encodeRune_high: "127 < r \<Longrightarrow> \<exists>b bs. encodeRune r = b # bs \<and> 127 < b"
  by (auto simp: encodeRune_def)

lemma decodeRune_ascii: "b \<le> 127 \<Longrightarrow> decodeRune (b # bs) = (b, 1)"
  by simp

lemma two_bytes:
  assumes "194 \<le> b" "b \<le> 223" "cont b1"
  shows "127 < b mod 32 * 64 + b1 mod 64"
    and "b mod 32 * 64 + b1 mod 64 = 304 \<longleftrightarrow> b = 196 \<and> b1 = 176"
proof -
  have b: "b mod 32 = b - 192" using assms by (intro m32) auto
  have b1: "b1 mod 64 = b1 - 128" using assms by (intro m64) (auto simp: cont_def)
  have "2 \<le> b - 192" using assms by simp
  then have "2 * 64 \<le> (b - 192) * 64" by (rule mult_le_mono1)
  then show "127 < b mod 32 * 64 + b1 mod 64" unfolding b b1 by linarith
  define k where "k = b - 192"
  define m where "m = b1 - 128"
  have m: "m < 64" using assms by (auto simp: m_def cont_def)
  have "k * 64 + m = 304 \<longleftrightarrow> k = 4 \<and> m = 48"
  proof
    assume e: "k * 64 + m = 304"
    have "(k * 64 + m) div 64 = k" "(k * 64 + m) mod 64 = m" using m by simp_all
    then show "k = 4 \<and> m = 48" unfolding e by simp
  qed simp
  moreover have "k = 4 \<longleftrightarrow> b = 196" using assms by (auto simp: k_def)
  moreover have "m = 48 \<longleftrightarrow> b1 = 176" using assms by (auto simp: m_def cont_def)
  ultimately show "b mod 32 * 64 + b1 mod 64 = 304 \<longleftrightarrow> b = 196 \<and> b1 = 176"
    unfolding b b1 k_def[symmetric] m_def[symmetric] by simp
qed

lemma three_bytes:
  assumes "224 \<le> b" "b \<le> 239" "second3 b b1"
  shows "2047 < (b mod 16 * 64 + b1 mod 64) * 64 + x"
proof -
  have b: "b mod 16 = b - 224" using assms by (intro m16) auto
  have c: "128 \<le> b1 \<and> b1 \<le> 191" using assms by (auto simp: second3_def cont_def split: if_splits)
  have b1: "b1 mod 64 = b1 - 128" using c by (intro m64) auto
  show ?thesis
  proof (cases "b = 224")
    case True
    then have "160 \<le> b1" using assms by (simp add: second3_def)
    then show ?thesis unfolding b b1 by simp
  next
    case False
    then have "225 \<le> b" using assms by simp
    then show ?thesis unfolding b b1 by simp
  qed
qed

lemma four_bytes:
  assumes "240 \<le> b" "b \<le> 244" "second4 b b1"
  shows "65535 < ((b mod 8 * 64 + b1 mod 64) * 64 + x) * 64 + y"
proof -
  have b: "b mod 8 = b - 240" using assms by (intro m8) auto
  have c: "128 \<le> b1 \<and> b1 \<le> 191" using assms by (auto simp: second4_def cont_def split: if_splits)
  have b1: "b1 mod 64 = b1 - 128" using c by (intro m64) auto
  show ?thesis
  proof (cases "b = 240")
    case True
    then have "144 \<le> b1" using assms by (simp add: second4_def)
    then show ?thesis unfolding b b1 by simp
  next
    case False
    then have "241 \<le> b" using assms by simp
    then show ?thesis unfolding b b1 by simp
  qed
qed

lemma decodeRune_high:
  assumes "127 < b"
  shows "127 < fst (decodeRune (b # bs))"
proof -
  have t: "194 \<le> b \<Longrightarrow> b \<le> 223 \<Longrightarrow> cont b1 \<Longrightarrow> 127 < b mod 32 * 64 + b1 mod 64" for b1
    by (rule two_bytes(1))
  have h: "224 \<le> b \<Longrightarrow> b \<le> 239 \<Longrightarrow> second3 b b1 \<Longrightarrow>
      127 < (b mod 16 * 64 + b1 mod 64) * 64 + x" for b1 x
    using three_bytes[of b b1 x] by simp
  have f: "240 \<le> b \<Longrightarrow> b \<le> 244 \<Longrightarrow> second4 b b1 \<Longrightarrow>
      127 < ((b mod 8 * 64 + b1 mod 64) * 64 + x) * 64 + y" for b1 x y
    using four_bytes[of b b1 x y] by simp
  show ?thesis
    using assms t h f by (simp split: list.splits)
qed

lemma decodeRune_304:
  "fst (decodeRune (b # bs)) = 304 \<longleftrightarrow> b = 196 \<and> (\<exists>bs'. bs = 176 # bs')"
proof -
  have t: "194 \<le> b \<Longrightarrow> b \<le> 223 \<Longrightarrow> cont b1 \<Longrightarrow>
      b mod 32 * 64 + b1 mod 64 = 304 \<longleftrightarrow> b = 196 \<and> b1 = 176" for b1
    by (rule two_bytes(2))
  have h: "224 \<le> b \<Longrightarrow> b \<le> 239 \<Longrightarrow> second3 b b1 \<Longrightarrow>
      (b mod 16 * 64 + b1 mod 64) * 64 + x \<noteq> 304" for b1 x
    using three_bytes[of b b1 x] by simp
  have f: "240 \<le> b \<Longrightarrow> b \<le> 244 \<Longrightarrow> second4 b b1 \<Longrightarrow>
      ((b mod 8 * 64 + b1 mod 64) * 64 + x) * 64 + y \<noteq> 304" for b1 x y
    using four_bytes[of b b1 x y] by simp
  show ?thesis
  proof (cases "b = 196")
    case True
    then show ?thesis using t by (auto simp: cont_def split: list.splits)
  next
    case False
    then show ?thesis using t h f by (simp split: list.splits)
  qed
qed

lemma decodeRune_dotted: "decodeRune (196 # 176 # bs) = (304, 2)"
  by (simp add: cont_def)

section \<open>Lower case, one letter at a time\<close>

lemma encodeRune_byte: "b \<in> set (encodeRune r) \<Longrightarrow> b < 256"
proof -
  assume a: "b \<in> set (encodeRune r)"
  have m: "128 + x mod 64 < 256" for x :: nat
  proof -
    have "x mod 64 < 64" by simp
    then show ?thesis by linarith
  qed
  have d1: "r \<le> 2047 \<Longrightarrow> 192 + r div 64 < 256"
  proof -
    assume "r \<le> 2047"
    then have "r div 64 \<le> 2047 div 64" by (rule div_le_mono)
    then show ?thesis by simp
  qed
  have d2: "r \<le> 65535 \<Longrightarrow> 224 + r div 4096 < 256"
  proof -
    assume "r \<le> 65535"
    then have "r div 4096 \<le> 65535 div 4096" by (rule div_le_mono)
    then show ?thesis by simp
  qed
  have d3: "\<not> 1114111 < r \<Longrightarrow> 240 + r div 262144 < 256"
  proof -
    assume "\<not> 1114111 < r"
    then have "r \<le> 1114111" by simp
    then have "r div 262144 \<le> 1114111 div 262144" by (rule div_le_mono)
    then show ?thesis by simp
  qed
  consider "r \<le> 127" | "127 < r" "r \<le> 2047"
    | "2047 < r" "1114111 < r \<or> (55296 \<le> r \<and> r \<le> 57343)"
    | "2047 < r" "\<not> (1114111 < r \<or> (55296 \<le> r \<and> r \<le> 57343))" "r \<le> 65535"
    | "65535 < r" "\<not> (1114111 < r \<or> (55296 \<le> r \<and> r \<le> 57343))"
    by linarith
  then show ?thesis
  proof cases
    case 1
    then show ?thesis using a by (simp add: encodeRune_def)
  next
    case 2
    then show ?thesis using a m[of r] d1 by (auto simp: encodeRune_def)
  next
    case 3
    then show ?thesis using a by (auto simp: encodeRune_def)
  next
    case 4
    then show ?thesis using a m[of r] m[of "r div 64"] d2 by (auto simp: encodeRune_def)
  next
    case 5
    then show ?thesis
      using a m[of r] m[of "r div 64"] m[of "r div 4096"] d3 by (auto simp: encodeRune_def)
  qed
qed

lemma lowerBytes_Nil: "lowerBytes tbl [] = []"
  by (simp add: lowerBytes_def)

lemma lowerBytes_Cons:
  "lowerBytes tbl (b # bs) =
     encodeRune (lowerRune tbl (fst (decodeRune (b # bs))))
     @ lowerBytes tbl (drop (snd (decodeRune (b # bs)) - 1) bs)"
  by (simp add: lowerBytes_def split: prod.splits)

lemma encodeRune_not_Nil: "encodeRune r \<noteq> []"
  by (simp add: encodeRune_def)

lemma lowerBytes_eq_Nil: "lowerBytes tbl bs = [] \<longleftrightarrow> bs = []"
  by (cases bs) (simp_all add: lowerBytes_Nil lowerBytes_Cons encodeRune_not_Nil)

lemma lowerBytes_byte: "b \<in> set (lowerBytes tbl bs) \<Longrightarrow> b < 256"
  by (auto simp: lowerBytes_def dest: encodeRune_byte)

lemma encode_head:
  assumes "c \<le> 127"
  shows "encodeRune l @ rest = c # cs \<longleftrightarrow> l = c \<and> rest = cs"
proof (cases "l \<le> 127")
  case True
  then show ?thesis by (simp add: encodeRune_ascii)
next
  case False
  then obtain b bs where "encodeRune l = b # bs" "127 < b"
    using encodeRune_high[of l] by auto
  then show ?thesis using assms False by auto
qed

lemma lowerRune_ascii_iff:
  assumes tbl: "\<forall>r. 128 \<le> r \<longrightarrow> 128 \<le> tbl r" and c: "c \<le> 127"
  shows "lowerRune tbl r = c \<longleftrightarrow>
     (r \<le> 127 \<and> asciiLower r = c) \<or> (r = 304 \<and> c = 105) \<or> (r = 8490 \<and> c = 107)"
proof (cases "r \<le> 127")
  case True
  then show ?thesis by (auto simp: lowerRune_def)
next
  case False
  then have "128 \<le> tbl r" using tbl by simp
  then show ?thesis using False c by (auto simp: lowerRune_def)
qed

lemma step_plain:
  assumes tbl: "\<forall>r. 128 \<le> r \<longrightarrow> 128 \<le> tbl r"
    and c: "c \<le> 127" "c \<noteq> 105" "c \<noteq> 107"
  shows "lowerBytes tbl bs = c # cs \<longleftrightarrow>
     (\<exists>b bs'. bs = b # bs' \<and> b \<le> 127 \<and> asciiLower b = c \<and> lowerBytes tbl bs' = cs)"
proof (cases bs)
  case Nil
  then show ?thesis by (simp add: lowerBytes_Nil)
next
  case (Cons b bs')
  show ?thesis
  proof (cases "b \<le> 127")
    case True
    then show ?thesis
      using c by (simp add: Cons lowerBytes_Cons encode_head lowerRune_ascii_iff[OF tbl])
  next
    case False
    then have "127 < fst (decodeRune (b # bs'))" by (intro decodeRune_high) simp
    then have "lowerRune tbl (fst (decodeRune (b # bs'))) \<noteq> c"
      using c by (simp add: lowerRune_ascii_iff[OF tbl])
    then show ?thesis
      using False c by (simp add: Cons lowerBytes_Cons encode_head)
  qed
qed

lemma step_i:
  assumes tbl: "\<forall>r. 128 \<le> r \<longrightarrow> 128 \<le> tbl r"
  shows "lowerBytes tbl bs = 105 # cs \<longleftrightarrow>
     (\<exists>b bs'. bs = b # bs' \<and> b \<le> 127 \<and> asciiLower b = 105 \<and> lowerBytes tbl bs' = cs)
     \<or> (\<exists>bs'. bs = 196 # 176 # bs' \<and> lowerBytes tbl bs' = cs)"
proof (cases bs)
  case Nil
  then show ?thesis by (simp add: lowerBytes_Nil)
next
  case (Cons b bs')
  show ?thesis
  proof (cases "b \<le> 127")
    case True
    then show ?thesis
      by (auto simp: Cons lowerBytes_Cons encode_head lowerRune_ascii_iff[OF tbl])
  next
    case False
    then have h: "127 < fst (decodeRune (b # bs'))" by (intro decodeRune_high) simp
    show ?thesis
    proof (cases "fst (decodeRune (b # bs')) = 304")
      case True
      then obtain bs'' where b: "b = 196" "bs' = 176 # bs''" using decodeRune_304 by blast
      show ?thesis
        by (simp add: Cons b lowerBytes_Cons cont_def encode_head lowerRune_def)
    next
      case n: False
      then have "lowerRune tbl (fst (decodeRune (b # bs'))) \<noteq> 105"
        using h by (simp add: lowerRune_ascii_iff[OF tbl])
      moreover have "\<not> (b = 196 \<and> (\<exists>bs''. bs' = 176 # bs''))" using n decodeRune_304 by blast
      ultimately show ?thesis
        using False by (auto simp: Cons lowerBytes_Cons encode_head)
    qed
  qed
qed

lemma ToLower_eq_iff:
  "ToLower tbl op = t \<longleftrightarrow> lowerBytes tbl (map of_char op) = map of_char t"
proof -
  have "map (of_char :: char \<Rightarrow> nat) (map char_of (lowerBytes tbl (map of_char op)))
      = lowerBytes tbl (map of_char op)"
    using lowerBytes_byte[of _ tbl "map of_char op"] by (simp add: map_idI)
  then have "map (of_char :: char \<Rightarrow> nat) (ToLower tbl op) = lowerBytes tbl (map of_char op)"
    by (simp add: ToLower_def)
  moreover have "ToLower tbl op = t \<longleftrightarrow>
      map (of_char :: char \<Rightarrow> nat) (ToLower tbl op) = map of_char t"
    by (simp add: inj_map_eq_map inj_on_def)
  ultimately show ?thesis by simp
qed

lemma sameLetter_iff:
  assumes "97 \<le> (of_char c :: nat)" "(of_char c :: nat) \<le> 122"
  shows "(of_char a :: nat) \<le> 127 \<and> asciiLower (of_char a) = of_char c \<longleftrightarrow> sameLetter a c"
proof -
  have e: "a = c \<longleftrightarrow> (of_char a :: nat) = of_char c" by simp
  show ?thesis unfolding sameLetter_def e asciiLower_def using assms by auto
qed

lemma char_step_plain:
  assumes tbl: "\<forall>r. 128 \<le> r \<longrightarrow> 128 \<le> tbl r"
    and c: "97 \<le> (of_char c :: nat)" "(of_char c :: nat) \<le> 122"
      "(of_char c :: nat) \<noteq> 105" "(of_char c :: nat) \<noteq> 107"
  shows "lowerBytes tbl (map of_char op) = of_char c # cs \<longleftrightarrow>
     (\<exists>a op'. op = a # op' \<and> sameLetter a c \<and> lowerBytes tbl (map of_char op') = cs)"
proof -
  have c127: "(of_char c :: nat) \<le> 127" using c(2) by simp
  show ?thesis
    unfolding step_plain[OF tbl c127 c(3) c(4)] sameLetter_iff[OF c(1) c(2), symmetric]
    by (auto simp: map_eq_Cons_conv)
qed

lemma char_step_i:
  assumes tbl: "\<forall>r. 128 \<le> r \<longrightarrow> 128 \<le> tbl r"
  shows "lowerBytes tbl (map of_char op) = 105 # cs \<longleftrightarrow>
     (\<exists>a op'. op = a # op' \<and> sameLetter a (CHR ''i'') \<and> lowerBytes tbl (map of_char op') = cs)
     \<or> (\<exists>op'. op = CHR 0xC4 # CHR 0xB0 # op' \<and> lowerBytes tbl (map of_char op') = cs)"
proof -
  have i: "97 \<le> (of_char (CHR ''i'') :: nat)" "(of_char (CHR ''i'') :: nat) \<le> 122" by simp_all
  have e: "(of_char a :: nat) = 196 \<longleftrightarrow> a = CHR 0xC4" "(of_char a :: nat) = 176 \<longleftrightarrow> a = CHR 0xB0"
    for a :: char
    using of_char_eq_iff[of a "CHR 0xC4", where 'a = nat]
      of_char_eq_iff[of a "CHR 0xB0", where 'a = nat] by simp_all
  show ?thesis
    unfolding step_i[OF tbl] sameLetter_iff[OF i, symmetric]
    by (auto simp: map_eq_Cons_conv e)
qed

lemma letter_steps:
  assumes tbl: "\<forall>r. 128 \<le> r \<longrightarrow> 128 \<le> tbl r"
  shows "lowerBytes tbl (map of_char op) = 114 # cs \<longleftrightarrow>
      (\<exists>a op'. op = a # op' \<and> sameLetter a CHR ''r'' \<and> lowerBytes tbl (map of_char op') = cs)"
    and "lowerBytes tbl (map of_char op) = 101 # cs \<longleftrightarrow>
      (\<exists>a op'. op = a # op' \<and> sameLetter a CHR ''e'' \<and> lowerBytes tbl (map of_char op') = cs)"
    and "lowerBytes tbl (map of_char op) = 97 # cs \<longleftrightarrow>
      (\<exists>a op'. op = a # op' \<and> sameLetter a CHR ''a'' \<and> lowerBytes tbl (map of_char op') = cs)"
    and "lowerBytes tbl (map of_char op) = 100 # cs \<longleftrightarrow>
      (\<exists>a op'. op = a # op' \<and> sameLetter a CHR ''d'' \<and> lowerBytes tbl (map of_char op') = cs)"
    and "lowerBytes tbl (map of_char op) = 119 # cs \<longleftrightarrow>
      (\<exists>a op'. op = a # op' \<and> sameLetter a CHR ''w'' \<and> lowerBytes tbl (map of_char op') = cs)"
    and "lowerBytes tbl (map of_char op) = 116 # cs \<longleftrightarrow>
      (\<exists>a op'. op = a # op' \<and> sameLetter a CHR ''t'' \<and> lowerBytes tbl (map of_char op') = cs)"
proof -
  have v0: "(of_char CHR ''r'' :: nat) = 114" by simp
  have s0: "97 \<le> (of_char CHR ''r'' :: nat)" "(of_char CHR ''r'' :: nat) \<le> 122"
    "(of_char CHR ''r'' :: nat) \<noteq> 105" "(of_char CHR ''r'' :: nat) \<noteq> 107"
    unfolding v0 by simp_all
  show "lowerBytes tbl (map of_char op) = 114 # cs \<longleftrightarrow>
      (\<exists>a op'. op = a # op' \<and> sameLetter a CHR ''r'' \<and> lowerBytes tbl (map of_char op') = cs)"
    using char_step_plain[OF tbl s0, of op cs] unfolding v0 .
  have v1: "(of_char CHR ''e'' :: nat) = 101" by simp
  have s1: "97 \<le> (of_char CHR ''e'' :: nat)" "(of_char CHR ''e'' :: nat) \<le> 122"
    "(of_char CHR ''e'' :: nat) \<noteq> 105" "(of_char CHR ''e'' :: nat) \<noteq> 107"
    unfolding v1 by simp_all
  show "lowerBytes tbl (map of_char op) = 101 # cs \<longleftrightarrow>
      (\<exists>a op'. op = a # op' \<and> sameLetter a CHR ''e'' \<and> lowerBytes tbl (map of_char op') = cs)"
    using char_step_plain[OF tbl s1, of op cs] unfolding v1 .
  have v2: "(of_char CHR ''a'' :: nat) = 97" by simp
  have s2: "97 \<le> (of_char CHR ''a'' :: nat)" "(of_char CHR ''a'' :: nat) \<le> 122"
    "(of_char CHR ''a'' :: nat) \<noteq> 105" "(of_char CHR ''a'' :: nat) \<noteq> 107"
    unfolding v2 by simp_all
  show "lowerBytes tbl (map of_char op) = 97 # cs \<longleftrightarrow>
      (\<exists>a op'. op = a # op' \<and> sameLetter a CHR ''a'' \<and> lowerBytes tbl (map of_char op') = cs)"
    using char_step_plain[OF tbl s2, of op cs] unfolding v2 .
  have v3: "(of_char CHR ''d'' :: nat) = 100" by simp
  have s3: "97 \<le> (of_char CHR ''d'' :: nat)" "(of_char CHR ''d'' :: nat) \<le> 122"
    "(of_char CHR ''d'' :: nat) \<noteq> 105" "(of_char CHR ''d'' :: nat) \<noteq> 107"
    unfolding v3 by simp_all
  show "lowerBytes tbl (map of_char op) = 100 # cs \<longleftrightarrow>
      (\<exists>a op'. op = a # op' \<and> sameLetter a CHR ''d'' \<and> lowerBytes tbl (map of_char op') = cs)"
    using char_step_plain[OF tbl s3, of op cs] unfolding v3 .
  have v4: "(of_char CHR ''w'' :: nat) = 119" by simp
  have s4: "97 \<le> (of_char CHR ''w'' :: nat)" "(of_char CHR ''w'' :: nat) \<le> 122"
    "(of_char CHR ''w'' :: nat) \<noteq> 105" "(of_char CHR ''w'' :: nat) \<noteq> 107"
    unfolding v4 by simp_all
  show "lowerBytes tbl (map of_char op) = 119 # cs \<longleftrightarrow>
      (\<exists>a op'. op = a # op' \<and> sameLetter a CHR ''w'' \<and> lowerBytes tbl (map of_char op') = cs)"
    using char_step_plain[OF tbl s4, of op cs] unfolding v4 .
  have v5: "(of_char CHR ''t'' :: nat) = 116" by simp
  have s5: "97 \<le> (of_char CHR ''t'' :: nat)" "(of_char CHR ''t'' :: nat) \<le> 122"
    "(of_char CHR ''t'' :: nat) \<noteq> 105" "(of_char CHR ''t'' :: nat) \<noteq> 107"
    unfolding v5 by simp_all
  show "lowerBytes tbl (map of_char op) = 116 # cs \<longleftrightarrow>
      (\<exists>a op'. op = a # op' \<and> sameLetter a CHR ''t'' \<and> lowerBytes tbl (map of_char op') = cs)"
    using char_step_plain[OF tbl s5, of op cs] unfolding v5 .
qed

section \<open>The labels that lower to read and to write\<close>

lemma ToLower_read:
  assumes tbl: "\<forall>r. 128 \<le> r \<longrightarrow> 128 \<le> tbl r"
  shows "ToLower tbl op = ''read'' \<longleftrightarrow> readLabel op"
  by (simp add: ToLower_eq_iff readLabel_def letter_steps[OF tbl] lowerBytes_eq_Nil
      list_all2_Cons2)

lemma te_iff:
  assumes tbl: "\<forall>r. 128 \<le> r \<longrightarrow> 128 \<le> tbl r"
  shows "lowerBytes tbl (map of_char op) = [116, 101] \<longleftrightarrow> list_all2 sameLetter op ''te''"
  by (simp add: letter_steps[OF tbl] lowerBytes_eq_Nil list_all2_Cons2)

lemma ite_iff:
  assumes tbl: "\<forall>r. 128 \<le> r \<longrightarrow> 128 \<le> tbl r"
  shows "lowerBytes tbl (map of_char op) = [105, 116, 101] \<longleftrightarrow>
     list_all2 sameLetter op ''ite'' \<or> (\<exists>op'. op = CHR 0xC4 # CHR 0xB0 # op' \<and> list_all2 sameLetter op' ''te'')"
  unfolding char_step_i[OF tbl] te_iff[OF tbl] by (simp add: list_all2_Cons2[of _ _ "CHR ''i''"])

lemma write_bytes_iff:
  assumes tbl: "\<forall>r. 128 \<le> r \<longrightarrow> 128 \<le> tbl r"
  shows "lowerBytes tbl (map of_char op) = [119, 114, 105, 116, 101] \<longleftrightarrow>
     (\<exists>x y op'. op = x # y # op' \<and> sameLetter x CHR ''w'' \<and> sameLetter y CHR ''r''
        \<and> (list_all2 sameLetter op' ''ite''
           \<or> (\<exists>op''. op' = CHR 0xC4 # CHR 0xB0 # op'' \<and> list_all2 sameLetter op'' ''te'')))"
  unfolding letter_steps(5)[OF tbl] letter_steps(1)[OF tbl] ite_iff[OF tbl] by auto

lemma writeLabel_iff:
  "writeLabel op \<longleftrightarrow>
     (\<exists>x y op'. op = x # y # op' \<and> sameLetter x CHR ''w'' \<and> sameLetter y CHR ''r''
        \<and> (list_all2 sameLetter op' ''ite''
           \<or> (\<exists>op''. op' = CHR 0xC4 # CHR 0xB0 # op'' \<and> list_all2 sameLetter op'' ''te'')))"
proof (cases op)
  case Nil
  then show ?thesis by (simp add: writeLabel_def)
next
  case c1: (Cons x op1)
  show ?thesis
  proof (cases op1)
    case Nil
    then show ?thesis by (simp add: writeLabel_def c1 list_all2_Cons2)
  next
    case c2: (Cons y op2)
    have t: "take 2 (x # y # op2) = [x, y]" "drop 2 (x # y # op2) = op2"
      "drop 4 (x # y # op2) = drop 2 op2" "length (x # y # op2) = 6 \<longleftrightarrow> length op2 = 4"
      by (simp_all add: eval_nat_numeral)
    have d: "length op2 = 4 \<and> take 2 op2 = [CHR 0xC4, CHR 0xB0] \<and> list_all2 sameLetter (drop 2 op2) ''te''
        \<longleftrightarrow> (\<exists>op''. op2 = CHR 0xC4 # CHR 0xB0 # op'' \<and> list_all2 sameLetter op'' ''te'')"
    proof
      assume a: "length op2 = 4 \<and> take 2 op2 = [CHR 0xC4, CHR 0xB0]
          \<and> list_all2 sameLetter (drop 2 op2) ''te''"
      then obtain p q u v where o: "op2 = [p, q, u, v]"
        by (auto simp: length_Suc_conv eval_nat_numeral)
      show "\<exists>op''. op2 = CHR 0xC4 # CHR 0xB0 # op'' \<and> list_all2 sameLetter op'' ''te''"
        using a unfolding o by (simp add: eval_nat_numeral)
    next
      assume "\<exists>op''. op2 = CHR 0xC4 # CHR 0xB0 # op'' \<and> list_all2 sameLetter op'' ''te''"
      then obtain op'' where o: "op2 = CHR 0xC4 # CHR 0xB0 # op''" "list_all2 sameLetter op'' ''te''"
        by blast
      then have "length op'' = 2" by (auto dest: list_all2_lengthD)
      then show "length op2 = 4 \<and> take 2 op2 = [CHR 0xC4, CHR 0xB0]
          \<and> list_all2 sameLetter (drop 2 op2) ''te''"
        using o by (simp add: eval_nat_numeral)
    qed
    have "writeLabel op \<longleftrightarrow>
        (sameLetter x CHR ''w'' \<and> sameLetter y CHR ''r'' \<and> list_all2 sameLetter op2 ''ite'')
        \<or> (sameLetter x CHR ''w'' \<and> sameLetter y CHR ''r''
           \<and> length op2 = 4 \<and> take 2 op2 = [CHR 0xC4, CHR 0xB0]
           \<and> list_all2 sameLetter (drop 2 op2) ''te'')"
      unfolding writeLabel_def c1 c2 t by (simp add: list_all2_Cons2[of _ _ "CHR ''w''"]
          list_all2_Cons2[of _ _ "CHR ''r''"]) blast
    then show ?thesis unfolding d c1 c2 by auto
  qed
qed

lemma ToLower_write:
  assumes tbl: "\<forall>r. 128 \<le> r \<longrightarrow> 128 \<le> tbl r"
  shows "ToLower tbl op = ''write'' \<longleftrightarrow> writeLabel op"
  unfolding writeLabel_iff using write_bytes_iff[OF tbl, of op] by (simp add: ToLower_eq_iff)

text \<open>
  \<^verbatim>\<open>ToLower\<close> computed on labels: letters of either case, the two bytes of \<^verbatim>\<open>U+0130\<close>, the
  two bytes of a capital E with an acute accent (which the example table lowers), a
  byte that is not UTF-8, and the three bytes of the Kelvin sign.
\<close>

lemma ToLower_examples:
  "ToLower exampleCaseTable ''ReAd'' = ''read''"
  "ToLower exampleCaseTable ''WRITE'' = ''write''"
  "ToLower exampleCaseTable ''Sync'' = ''sync''"
  "ToLower exampleCaseTable [CHR ''W'', CHR ''R'', CHR 0xC4, CHR 0xB0, CHR ''T'', CHR ''E'']
     = ''write''"
  "ToLower exampleCaseTable [CHR 0xC3, CHR 0x89] = [CHR 0xC3, CHR 0xA9]"
  "ToLower exampleCaseTable [CHR 0xC9] = [CHR 0xEF, CHR 0xBF, CHR 0xBD]"
  "ToLower exampleCaseTable [CHR 0xE2, CHR 0x84, CHR 0xAA] = ''k''"
  by (simp_all add: ToLower_def lowerBytes_def lowerRune_def asciiLower_def encodeRune_def
      cont_def second3_def second4_def exampleCaseTable_def char_of_eq_iff)

section \<open>Properties of the block I/O sums\<close>

lemma foldl_blockIOStep:
  "foldl (blockIOStep caseTable) (r, w) es =
     (r + sum_list (map Value (filter (\<lambda>e. ToLower caseTable (Op e) = ''read'') es)),
      w + sum_list (map Value (filter (\<lambda>e. ToLower caseTable (Op e) = ''write'') es)))"
proof (induction es arbitrary: r w)
  case Nil
  show ?case by simp
next
  case (Cons e es)
  have neq: "''read'' \<noteq> ''write''" by simp
  show ?case
  proof (cases "ToLower caseTable (Op e) = ''read''")
    case True
    then show ?thesis
      using Cons.IH [of "r + Value e" w] by (simp add: blockIOStep_def add.assoc)
  next
    case False
    then show ?thesis
      using Cons.IH [of r "w + Value e"] Cons.IH [of r w]
      by (simp add: blockIOStep_def add.assoc)
  qed
qed

text \<open>
  Claim C4. \<^verbatim>\<open>calculateBlockIO\<close> classifies the label of every entry without regard to
  case. With a case table that sends no rune from outside ASCII into ASCII, as the
  tables of Go's package \<^verbatim>\<open>unicode\<close> do apart from the two runes that \<open>lowerRune\<close> writes
  out, the labels that \<^verbatim>\<open>strings.ToLower\<close> takes to \<^verbatim>\<open>read\<close> are the spellings of \<^verbatim>\<open>read\<close> in
  capital and small letters, and the labels that it takes to \<^verbatim>\<open>write\<close> are the spellings of
  \<^verbatim>\<open>write\<close>, where the \<^verbatim>\<open>i\<close> may also be \<^verbatim>\<open>U+0130\<close>. The function returns as \<^verbatim>\<open>blkRead\<close> the
  sum of the byte values of the entries with a label of the first kind and as \<^verbatim>\<open>blkWrite\<close>
  the sum over the entries with a label of the second kind; an entry with any other
  label adds to neither sum. The sums are \<^verbatim>\<open>uint64\<close> sums, as the code has them.
\<close>

theorem calculateBlockIO_sums:
  assumes "\<forall>r. 128 \<le> r \<longrightarrow> 128 \<le> caseTable r"
  shows "calculateBlockIO caseTable stats =
     (sum_list (map Value (filter (\<lambda>e. readLabel (Op e))
        (IoServiceBytesRecursive (BlkioStats stats)))),
      sum_list (map Value (filter (\<lambda>e. writeLabel (Op e))
        (IoServiceBytesRecursive (BlkioStats stats)))))
    \<and> (ToLower caseTable op = ''read'' \<longleftrightarrow> readLabel op)
    \<and> (ToLower caseTable op = ''write'' \<longleftrightarrow> writeLabel op)"
  by (simp add: calculateBlockIO_def foldl_blockIOStep ToLower_read[OF assms]
      ToLower_write[OF assms])

text \<open>
  The example of the specification: Read 10, WRITE 5 and Sync 1 give 10 and 5. A label
  WR\<^verbatim>\<open>U+0130\<close>TE counts as a write.
\<close>

theorem calculateBlockIO_sums_witness:
  "calculateBlockIO exampleCaseTable specExample = (10, 5)
   \<and> calculateBlockIO exampleCaseTable dottedLabel = (0, 7)
   \<and> ToLower exampleCaseTable ''WRITE'' = ''write''
   \<and> ToLower exampleCaseTable ''Read'' = ''read''
   \<and> ToLower exampleCaseTable ''Sync'' \<noteq> ''read''
   \<and> ToLower exampleCaseTable ''Sync'' \<noteq> ''write''
   \<and> ToLower exampleCaseTable [CHR ''W'', CHR ''R'', CHR 0xC4, CHR 0xB0, CHR ''T'', CHR ''E'']
       = ''write''"
proof -
  have p: "\<forall>r. 128 \<le> r \<longrightarrow> 128 \<le> exampleCaseTable r"
    by (simp add: exampleCaseTable_def)
  show ?thesis
    using calculateBlockIO_sums[OF p, of specExample "''WRITE''"]
      calculateBlockIO_sums[OF p, of dottedLabel "''Read''"]
      calculateBlockIO_sums[OF p, of specExample "''Sync''"]
      calculateBlockIO_sums[OF p, of specExample
        "[CHR ''W'', CHR ''R'', CHR 0xC4, CHR 0xB0, CHR ''T'', CHR ''E'']"]
    by (simp add: specExample_def dottedLabel_def readLabel_def writeLabel_def sameLetter_def)
qed

section \<open>CPU percentage\<close>

lemma calculateCPUPercent_float:
  assumes s: "unat (SystemUsage (PreCPUStats stats)) < unat (SystemUsage (CPUStats stats))"
    and c: "unat (TotalUsage (CPUUsage (PreCPUStats stats))) < unat (TotalUsage (CPUUsage (CPUStats stats)))"
  shows "calculateCPUPercent stats =
     fmul (fmul (fdiv
        (float64_of_int (uint (TotalUsage (CPUUsage (CPUStats stats)))
                          - uint (TotalUsage (CPUUsage (PreCPUStats stats)))))
        (float64_of_int (uint (SystemUsage (CPUStats stats))
                          - uint (SystemUsage (PreCPUStats stats)))))
        (float64_of_int (int (length (PercpuUsage (CPUUsage (CPUStats stats)))))))
        (Fin 100)"
proof -
  have s0: "SystemUsage (CPUStats stats) - SystemUsage (PreCPUStats stats) \<noteq> 0"
    using s by auto
  have c0: "TotalUsage (CPUUsage (CPUStats stats)) - TotalUsage (CPUUsage (PreCPUStats stats)) \<noteq> 0"
    using c by auto
  have s1: "float64_of_uint64 (SystemUsage (CPUStats stats) - SystemUsage (PreCPUStats stats))
      = float64_of_int (uint (SystemUsage (CPUStats stats)) - uint (SystemUsage (PreCPUStats stats)))"
    using s by (intro float64_of_uint64_sub) simp
  have c1: "float64_of_uint64 (TotalUsage (CPUUsage (CPUStats stats)) - TotalUsage (CPUUsage (PreCPUStats stats)))
      = float64_of_int (uint (TotalUsage (CPUUsage (CPUStats stats))) - uint (TotalUsage (CPUUsage (PreCPUStats stats))))"
    using c by (intro float64_of_uint64_sub) simp
  have g: "fgt (float64_of_uint64 (SystemUsage (CPUStats stats) - SystemUsage (PreCPUStats stats))) (Fin 0)"
     "fgt (float64_of_uint64 (TotalUsage (CPUUsage (CPUStats stats)) - TotalUsage (CPUUsage (PreCPUStats stats)))) (Fin 0)"
    using s0 c0 by (simp_all only: float64_of_uint64_gt not_False_eq_True)
  show ?thesis
    unfolding calculateCPUPercent_def Let_def using g by (simp only: if_True simp_thms s1 c1)
qed

lemma of_nat_unat_sub:
  assumes "unat b < unat a"
  shows "a - b \<noteq> 0" and "(of_nat (unat (a - b)) :: rat) = of_int (uint a - uint b)"
proof -
  show "a - b \<noteq> 0" using assms by auto
  have "b \<le> a" using assms by (simp add: word_le_nat_alt)
  then have "unat (a - b) = unat a - unat b" by (rule unat_sub)
  moreover have "(of_int (int (unat a) - int (unat b)) :: rat) = of_nat (unat a - unat b)"
    using assms by (simp only: of_nat_diff[symmetric] of_int_of_nat_eq less_imp_le)
  moreover have "uint a = int (unat a)" "uint b = int (unat b)" by simp_all
  ultimately show "(of_nat (unat (a - b)) :: rat) = of_int (uint a - uint b)" by (simp only:)
qed

lemma cpuPercent_tolerance:
  assumes s: "unat (SystemUsage (PreCPUStats stats)) < unat (SystemUsage (CPUStats stats))"
    and c: "unat (TotalUsage (CPUUsage (PreCPUStats stats))) < unat (TotalUsage (CPUUsage (CPUStats stats)))"
    and n: "length (PercpuUsage (CPUUsage (CPUStats stats))) < 2 ^ 63"
  shows "\<exists>p. calculateCPUPercent stats = Fin p \<and>
     \<bar>p - cpuPercentSpec
        (uint (TotalUsage (CPUUsage (CPUStats stats))) - uint (TotalUsage (CPUUsage (PreCPUStats stats))))
        (uint (SystemUsage (CPUStats stats)) - uint (SystemUsage (PreCPUStats stats)))
        (length (PercpuUsage (CPUUsage (CPUStats stats))))\<bar>
     \<le> cpuPercentSpec
        (uint (TotalUsage (CPUUsage (CPUStats stats))) - uint (TotalUsage (CPUUsage (PreCPUStats stats))))
        (uint (SystemUsage (CPUStats stats)) - uint (SystemUsage (PreCPUStats stats)))
        (length (PercpuUsage (CPUUsage (CPUStats stats)))) / 2 ^ 50"
proof -
  define a where "a = TotalUsage (CPUUsage (CPUStats stats)) - TotalUsage (CPUUsage (PreCPUStats stats))"
  define b where "b = SystemUsage (CPUStats stats) - SystemUsage (PreCPUStats stats)"
  define cd where "cd = uint (TotalUsage (CPUUsage (CPUStats stats))) - uint (TotalUsage (CPUUsage (PreCPUStats stats)))"
  define sd where "sd = uint (SystemUsage (CPUStats stats)) - uint (SystemUsage (PreCPUStats stats))"
  define len where "len = length (PercpuUsage (CPUUsage (CPUStats stats)))"
  have a0: "a \<noteq> 0" and au: "(of_nat (unat a) :: rat) = of_int cd"
    unfolding a_def cd_def using of_nat_unat_sub[OF c] by blast+
  have b0: "b \<noteq> 0" and bu: "(of_nat (unat b) :: rat) = of_int sd"
    unfolding b_def sd_def using of_nat_unat_sub[OF s] by blast+
  have cdpos: "0 < cd" using c unfolding cd_def by (simp add: word_less_nat_alt[symmetric] word_less_def)
  have sdpos: "0 < sd" using s unfolding sd_def by (simp add: word_less_nat_alt[symmetric] word_less_def)
  have spec: "cpuPercentSpec cd sd len = of_int cd / of_int sd * of_nat len * 100"
    using cdpos sdpos by (simp add: cpuPercentSpec_def)
  have g: "fgt (float64_of_uint64 b) (Fin 0)" "fgt (float64_of_uint64 a) (Fin 0)"
    using a0 b0 by (simp_all only: float64_of_uint64_gt not_False_eq_True)
  have code: "calculateCPUPercent stats =
      fmul (fmul (fdiv (float64_of_uint64 a) (float64_of_uint64 b)) (float64_of_int (int len))) (Fin 100)"
    unfolding calculateCPUPercent_def Let_def a_def[symmetric] b_def[symmetric] len_def[symmetric]
    using g by (simp only: if_True simp_thms)
  obtain Q where Q: "fdiv (float64_of_uint64 a) (float64_of_uint64 b) = Fin Q"
      "2 powi (- 64) \<le> Q" "Q \<le> 2 powi 64"
      "approx ((1 - 1 / 2 ^ 53) / (1 + 1 / 2 ^ 53) * (1 - 1 / 2 ^ 53))
              ((1 + 1 / 2 ^ 53) / (1 - 1 / 2 ^ 53) * (1 + 1 / 2 ^ 53)) Q (of_int cd / of_int sd)"
    using fdiv_counters_approx[OF a0 b0] unfolding au bu by blast
  have Qpos: "0 < Q" using Q(2) by (rule pos_of_powi)
  have ql: "(0::rat) \<le> of_int cd / of_int sd" using cdpos sdpos by simp
  show ?thesis
  proof (cases "len = 0")
    case True
    have "calculateCPUPercent stats = Fin 0"
      unfolding code Q(1) True by (simp add: float64_of_int_def round64_def)
    then show ?thesis
      unfolding cd_def[symmetric] sd_def[symmetric] len_def[symmetric] spec using True by simp
  next
    case False
    define nn :: rat where "nn = of_int (int len)"
    have "1 \<le> int len" using False by simp
    then have "(of_int 1 :: rat) \<le> of_int (int len)" by (simp only: of_int_le_iff)
    then have n1: "2 powi 0 \<le> nn" unfolding nn_def by simp
    have "int len < 2 ^ 63" using n unfolding len_def by simp
    then have "(of_int (int len) :: rat) < of_int (2 ^ 63)" by (simp only: of_int_less_iff)
    then have n2: "nn \<le> 2 powi 63" unfolding nn_def by simp
    have npos: "0 \<le> nn" using n1 pos_of_powi[OF n1] by simp
    obtain N where N: "round64 nn = Fin N" "2 powi 0 \<le> N" "N \<le> 2 powi 63"
        "approx (1 * (1 - 1 / 2 ^ 53)) (1 * (1 + 1 / 2 ^ 53)) N nn"
      using round64_approx[OF n1 n2 _ _ approx_exact _ npos] by auto
    have Npos: "0 < N" using N(2) by (rule pos_of_powi)
    have m1: "2 powi (- 64 + 0) \<le> Q * N" using Q(2) N(2) by (rule powi_mult_le)
    have m2: "Q * N \<le> 2 powi (64 + 63)" using Qpos Q(3) Npos N(3) by (intro mult_le_powi) auto
    have ma: "approx ((1 - 1 / 2 ^ 53) / (1 + 1 / 2 ^ 53) * (1 - 1 / 2 ^ 53) * (1 * (1 - 1 / 2 ^ 53)))
              ((1 + 1 / 2 ^ 53) / (1 - 1 / 2 ^ 53) * (1 + 1 / 2 ^ 53) * (1 * (1 + 1 / 2 ^ 53)))
              (Q * N) (of_int cd / of_int sd * nn)"
      using Q(4) N(4) _ _ ql npos by (rule approx_mult) simp_all
    have ml: "0 \<le> of_int cd / of_int sd * nn" using ql npos by (intro mult_nonneg_nonneg)
    obtain M where M: "round64 (Q * N) = Fin M" "2 powi (- 64 + 0) \<le> M" "M \<le> 2 powi (64 + 63)"
        "approx ((1 - 1 / 2 ^ 53) / (1 + 1 / 2 ^ 53) * (1 - 1 / 2 ^ 53) * (1 * (1 - 1 / 2 ^ 53)) * (1 - 1 / 2 ^ 53))
              ((1 + 1 / 2 ^ 53) / (1 - 1 / 2 ^ 53) * (1 + 1 / 2 ^ 53) * (1 * (1 + 1 / 2 ^ 53)) * (1 + 1 / 2 ^ 53))
              M (of_int cd / of_int sd * nn)"
      using round64_approx[OF m1 m2 _ _ ma _ ml] by auto
    obtain P where P: "fmul (Fin M) (Fin 100) = Fin P"
        "approx ((1 - 1 / 2 ^ 53) / (1 + 1 / 2 ^ 53) * (1 - 1 / 2 ^ 53) * (1 * (1 - 1 / 2 ^ 53)) * (1 - 1 / 2 ^ 53) * (1 - 1 / 2 ^ 53))
              ((1 + 1 / 2 ^ 53) / (1 - 1 / 2 ^ 53) * (1 + 1 / 2 ^ 53) * (1 * (1 + 1 / 2 ^ 53)) * (1 + 1 / 2 ^ 53) * (1 + 1 / 2 ^ 53))
              P (of_int cd / of_int sd * nn * 100)"
      using fmul_100_approx[OF M(2) M(3) _ _ M(4) _ ml] by auto
    have pl: "0 \<le> of_int cd / of_int sd * nn * 100" by (rule mult_nonneg_nonneg[OF ml]) simp
    have tol: "\<bar>P - of_int cd / of_int sd * nn * 100\<bar> \<le> 1 / 2 ^ 50 * (of_int cd / of_int sd * nn * 100)"
      by (rule approx_tolerance[OF P(2) _ _ pl]) simp_all
    have "calculateCPUPercent stats = Fin P"
      unfolding code Q(1) float64_of_int_def nn_def[symmetric] N(1) using M(1) P(1) by simp
    moreover have "cpuPercentSpec cd sd len = of_int cd / of_int sd * nn * 100"
      unfolding spec nn_def by simp
    ultimately show ?thesis
      unfolding cd_def[symmetric] sd_def[symmetric] len_def[symmetric] using tol by simp
  qed
qed

text \<open>
  Claim C1. When both differences are positive, the code computes
  \<open>(cpuDelta / systemDelta) * numCores * 100\<close> in \<^verbatim>\<open>float64\<close>: the two differences and the
  number of per-core entries are converted, then divided and multiplied from left to
  right, each operation rounding once. The result is finite and within a relative
  error of \<open>1 / 2 ^ 50\<close> of the exact value of the formula (a Go slice has fewer than
  \<open>2 ^ 63\<close> elements).
\<close>

theorem calculateCPUPercent_positive_deltas:
  assumes s: "0 < uint (SystemUsage (CPUStats stats)) - uint (SystemUsage (PreCPUStats stats))"
    and c: "0 < uint (TotalUsage (CPUUsage (CPUStats stats)))
                - uint (TotalUsage (CPUUsage (PreCPUStats stats)))"
  shows "calculateCPUPercent stats =
      fmul (fmul (fdiv
        (float64_of_int (uint (TotalUsage (CPUUsage (CPUStats stats)))
                          - uint (TotalUsage (CPUUsage (PreCPUStats stats)))))
        (float64_of_int (uint (SystemUsage (CPUStats stats))
                          - uint (SystemUsage (PreCPUStats stats)))))
        (float64_of_int (int (length (PercpuUsage (CPUUsage (CPUStats stats)))))))
        (Fin 100)
    \<and> (length (PercpuUsage (CPUUsage (CPUStats stats))) < 2 ^ 63 \<longrightarrow>
       (\<exists>p. calculateCPUPercent stats = Fin p \<and>
          \<bar>p - cpuPercentSpec
             (uint (TotalUsage (CPUUsage (CPUStats stats)))
               - uint (TotalUsage (CPUUsage (PreCPUStats stats))))
             (uint (SystemUsage (CPUStats stats)) - uint (SystemUsage (PreCPUStats stats)))
             (length (PercpuUsage (CPUUsage (CPUStats stats))))\<bar>
          \<le> cpuPercentSpec
             (uint (TotalUsage (CPUUsage (CPUStats stats)))
               - uint (TotalUsage (CPUUsage (PreCPUStats stats))))
             (uint (SystemUsage (CPUStats stats)) - uint (SystemUsage (PreCPUStats stats)))
             (length (PercpuUsage (CPUUsage (CPUStats stats)))) / 2 ^ 50))"
proof -
  have s': "unat (SystemUsage (PreCPUStats stats)) < unat (SystemUsage (CPUStats stats))"
    using s by (simp add: word_less_nat_alt[symmetric] word_less_def)
  have c': "unat (TotalUsage (CPUUsage (PreCPUStats stats)))
      < unat (TotalUsage (CPUUsage (CPUStats stats)))"
    using c by (simp add: word_less_nat_alt[symmetric] word_less_def)
  show ?thesis
    using calculateCPUPercent_float[OF s' c'] cpuPercent_tolerance[OF s' c'] by blast
qed

theorem calculateCPUPercent_positive_deltas_witness:
  "0 < uint (SystemUsage (CPUStats specExample)) - uint (SystemUsage (PreCPUStats specExample))
   \<and> 0 < uint (TotalUsage (CPUUsage (CPUStats specExample)))
          - uint (TotalUsage (CPUUsage (PreCPUStats specExample)))
   \<and> length (PercpuUsage (CPUUsage (CPUStats specExample))) < 2 ^ 63
   \<and> cpuPercentSpec
        (uint (TotalUsage (CPUUsage (CPUStats specExample)))
          - uint (TotalUsage (CPUUsage (PreCPUStats specExample))))
        (uint (SystemUsage (CPUStats specExample)) - uint (SystemUsage (PreCPUStats specExample)))
        (length (PercpuUsage (CPUUsage (CPUStats specExample)))) = 100
   \<and> calculateCPUPercent specExample = Fin 100"
proof -
  have s: "0 < uint (SystemUsage (CPUStats specExample))
      - uint (SystemUsage (PreCPUStats specExample))"
    by (simp add: specExample_def)
  have c: "0 < uint (TotalUsage (CPUUsage (CPUStats specExample)))
      - uint (TotalUsage (CPUUsage (PreCPUStats specExample)))"
    by (simp add: specExample_def)
  have i: "float64_of_int 100 = Fin 100" "float64_of_int 200 = Fin 200" "float64_of_int 2 = Fin 2"
    using float64_of_int_exact[of 100] float64_of_int_exact[of 200] float64_of_int_exact[of 2]
    by simp_all
  have h: "round64 (1 / 2) = Fin (1 / 2)" using round64_powi[of "- 1"] by simp
  have o: "round64 1 = Fin 1" "round64 100 = Fin 100"
    using round64_of_nat_exact[of 1] round64_of_nat_exact[of 100] by simp_all
  have "calculateCPUPercent specExample = Fin 100"
    using calculateCPUPercent_positive_deltas[OF s c] by (simp add: specExample_def i h o)
  then show ?thesis by (simp add: specExample_def cpuPercentSpec_def)
qed

text \<open>The part of claim C2 that holds: a difference that is zero gives 0.\<close>

lemma calculateCPUPercent_equal_counters:
  assumes "SystemUsage (CPUStats stats) = SystemUsage (PreCPUStats stats)
         \<or> TotalUsage (CPUUsage (CPUStats stats)) = TotalUsage (CPUUsage (PreCPUStats stats))"
  shows "calculateCPUPercent stats = Fin 0"
  using assms by (auto simp: calculateCPUPercent_def Let_def float64_of_uint64_zero)

lemma wrapped_delta: "float64_of_uint64 (100 - 200) = Fin 18446744073709551616"
  unfolding float64_of_uint64_def
  by (rule round64_cert[where e = 63 and k = 9007199254740992])
     (simp_all add: roundEven_near)

lemma wrapped_quotient: "fdiv (Fin 18446744073709551616) (Fin 200) = Fin 92233720368547760"
proof -
  have "round64 (18446744073709551616 / 200) = Fin 92233720368547760"
    by (rule round64_cert[where e = 56 and k = 5764607523034235])
       (simp_all add: roundEven_near)
  then show ?thesis by simp
qed

lemma wrapped_cores: "fmul (Fin 92233720368547760) (Fin 2) = Fin 184467440737095520"
proof -
  have "round64 (92233720368547760 * 2) = Fin 184467440737095520"
    by (rule round64_cert[where e = 57 and k = 5764607523034235])
       (simp_all add: roundEven_near)
  then show ?thesis by simp
qed

lemma wrapped_percent: "fmul (Fin 184467440737095520) (Fin 100) = Fin 18446744073709551616"
proof -
  have "round64 (184467440737095520 * 100) = Fin 18446744073709551616"
    by (rule round64_cert[where e = 64 and k = 4503599627370496])
       (simp_all add: roundEven_near)
  then show ?thesis by simp
qed

text \<open>
  Claim C2 says that the percentage is 0 as soon as one of the two differences is not
  positive. On \<open>counterWentBack\<close> the difference of the container counter is \<open>- 100\<close>, yet
  the code returns \<open>2 ^ 64\<close>: the subtraction is done on \<^verbatim>\<open>uint64\<close>, where it wraps around
  to \<open>2 ^ 64 - 100\<close>, and the test \<^verbatim>\<open>cpuDelta > 0.0\<close> on the converted value passes.
\<close>

theorem calculateCPUPercent_counterWentBack:
  "uint (TotalUsage (CPUUsage (CPUStats counterWentBack)))
     - uint (TotalUsage (CPUUsage (PreCPUStats counterWentBack))) = - 100
   \<and> calculateCPUPercent counterWentBack = Fin 18446744073709551616"
proof -
  have d: "uint (TotalUsage (CPUUsage (CPUStats counterWentBack)))
     - uint (TotalUsage (CPUUsage (PreCPUStats counterWentBack))) = - 100"
    by (simp add: counterWentBack_def)
  have sd: "float64_of_uint64 200 = Fin 200"
    using float64_of_uint64_exact[of "200"] by simp
  have cd: "float64_of_uint64 (- 100) = Fin 18446744073709551616"
    using wrapped_delta by simp
  have n: "float64_of_int 2 = Fin 2" using float64_of_int_exact[of 2] by simp
  have "calculateCPUPercent counterWentBack = Fin 18446744073709551616"
    by (simp add: calculateCPUPercent_def counterWentBack_def cd sd n Let_def
        wrapped_quotient wrapped_cores wrapped_percent del: fdiv.simps fmul.simps)
  with d show ?thesis by simp
qed

section \<open>Memory percentage\<close>

lemma memPercentage_tolerance:
  "\<exists>p. calculateMemPercentage stats = Fin p \<and>
       \<bar>p - memPercentageSpec (unat (Usage (MemoryStats stats))) (unat (Limit (MemoryStats stats)))\<bar>
         \<le> memPercentageSpec (unat (Usage (MemoryStats stats))) (unat (Limit (MemoryStats stats))) / 2 ^ 50"
proof -
  define usage where "usage = Usage (MemoryStats stats)"
  define limit where "limit = Limit (MemoryStats stats)"
  define u :: rat where "u = of_nat (unat usage)"
  define l :: rat where "l = of_nat (unat limit)"
  show ?thesis
  proof (cases "limit = 0")
    case True
    then show ?thesis
      by (simp add: calculateMemPercentage_def memPercentageSpec_def limit_def)
  next
    case l0: False
    then have ul: "unat limit \<noteq> 0" by (simp add: unat_eq_zero)
    have lpos: "0 < l" unfolding l_def using l0 by (rule of_nat_unat_pos)
    have upos: "0 \<le> u" unfolding u_def by (simp only: of_nat_0_le_iff)
    have spec: "memPercentageSpec (unat usage) (unat limit) = u / l * 100"
      using ul by (simp only: memPercentageSpec_def u_def l_def if_True simp_thms)
    show ?thesis
    proof (cases "usage = 0")
      case True
      obtain L where L: "float64_of_uint64 limit = Fin L" "1 \<le> L"
        using float64_of_uint64_pos[OF l0] by blast
      have "calculateMemPercentage stats = Fin 0"
        using l0 L True
        by (simp add: calculateMemPercentage_def limit_def[symmetric] usage_def[symmetric]
            float64_of_uint64_zero round64_def)
      then show ?thesis using True
        by (simp add: memPercentageSpec_def usage_def[symmetric])
    next
      case u0: False
      obtain Q where Q: "fdiv (float64_of_uint64 usage) (float64_of_uint64 limit) = Fin Q"
          "2 powi (- 64) \<le> Q" "Q \<le> 2 powi 64"
          "approx ((1 - 1 / 2 ^ 53) / (1 + 1 / 2 ^ 53) * (1 - 1 / 2 ^ 53))
                  ((1 + 1 / 2 ^ 53) / (1 - 1 / 2 ^ 53) * (1 + 1 / 2 ^ 53)) Q (u / l)"
        using fdiv_counters_approx[OF u0 l0] unfolding u_def l_def by blast
      have ql: "0 \<le> u / l" using upos lpos by simp
      obtain P where P: "fmul (Fin Q) (Fin 100) = Fin P"
          "approx ((1 - 1 / 2 ^ 53) / (1 + 1 / 2 ^ 53) * (1 - 1 / 2 ^ 53) * (1 - 1 / 2 ^ 53))
                  ((1 + 1 / 2 ^ 53) / (1 - 1 / 2 ^ 53) * (1 + 1 / 2 ^ 53) * (1 + 1 / 2 ^ 53))
                  P (u / l * 100)"
        using fmul_100_approx[OF Q(2) Q(3) _ _ Q(4) _ ql] by auto
      have pl: "0 \<le> u / l * 100" using ql by (intro mult_nonneg_nonneg) simp_all
      have "\<bar>P - u / l * 100\<bar> \<le> 1 / 2 ^ 50 * (u / l * 100)"
        by (rule approx_tolerance[OF P(2) _ _ pl]) simp_all
      moreover have "calculateMemPercentage stats = Fin P"
        using l0 Q(1) P(1)
        by (simp only: calculateMemPercentage_def limit_def[symmetric] usage_def[symmetric]
            if_True simp_thms)
      ultimately show ?thesis unfolding usage_def[symmetric] limit_def[symmetric] spec by simp
    qed
  qed
qed

text \<open>
  Claim C3. \<^verbatim>\<open>calculateMemPercentage\<close> is 0 when the limit is 0 and otherwise
  \<open>usage / limit * 100\<close> computed in \<^verbatim>\<open>float64\<close>. No division by zero happens: the result is
  always a finite number, and it is within a relative error of \<open>1 / 2 ^ 50\<close> of the exact
  value of the formula.
\<close>

theorem calculateMemPercentage_formula:
  "calculateMemPercentage stats =
     (if Limit (MemoryStats stats) = 0 then Fin 0
      else fmul (fdiv (float64_of_uint64 (Usage (MemoryStats stats)))
                      (float64_of_uint64 (Limit (MemoryStats stats)))) (Fin 100))
   \<and> (\<exists>p. calculateMemPercentage stats = Fin p \<and>
        \<bar>p - memPercentageSpec (unat (Usage (MemoryStats stats))) (unat (Limit (MemoryStats stats)))\<bar>
          \<le> memPercentageSpec (unat (Usage (MemoryStats stats))) (unat (Limit (MemoryStats stats)))
              / 2 ^ 50)"
  using memPercentage_tolerance[of stats] by (simp add: calculateMemPercentage_def)

text \<open>The example of the specification: 500 bytes used of 1000 are exactly 50 percent.\<close>

lemma calculateMemPercentage_specExample: "calculateMemPercentage specExample = Fin 50"
proof -
  have u: "float64_of_uint64 500 = Fin 500" "float64_of_uint64 1000 = Fin 1000"
    using float64_of_uint64_exact[of 500] float64_of_uint64_exact[of 1000] by simp_all
  have h: "round64 (1 / 2) = Fin (1 / 2)" using round64_powi[of "- 1"] by simp
  have o: "round64 50 = Fin 50" using round64_of_nat_exact[of 50] by simp
  show ?thesis by (simp add: calculateMemPercentage_def specExample_def u h o)
qed

section \<open>Network totals\<close>

lemma foldl_networkStep:
  "foldl networkStep (rx, tx) nets =
     (foldl fadd rx (map (\<lambda>e. float64_of_uint64 (RxBytes (snd e))) nets),
      foldl fadd tx (map (\<lambda>e. float64_of_uint64 (TxBytes (snd e))) nets))"
  by (induction nets arbitrary: rx tx) (auto simp: networkStep_def split: prod.splits)

lemma fadd_exact:
  assumes "a + unat u \<le> 2 ^ 53"
  shows "fadd (Fin (of_nat a)) (float64_of_uint64 u) = Fin (of_nat (a + unat u))"
proof -
  have "unat u \<le> 2 ^ 53" using assms by simp
  then have "float64_of_uint64 u = Fin (of_nat (unat u))" by (rule float64_of_uint64_exact)
  then have "fadd (Fin (of_nat a)) (float64_of_uint64 u) = round64 (of_nat a + of_nat (unat u))"
    by (simp only: fadd.simps)
  also have "\<dots> = round64 (of_nat (a + unat u))" by (simp only: of_nat_add)
  also have "\<dots> = Fin (of_nat (a + unat u))" using assms by (rule round64_of_nat_exact)
  finally show ?thesis .
qed

lemma foldl_fadd_exact:
  "a + sum_list (map unat us) \<le> 2 ^ 53 \<Longrightarrow>
   foldl fadd (Fin (of_nat a)) (map float64_of_uint64 us) = Fin (of_nat (a + sum_list (map unat us)))"
proof (induction us arbitrary: a)
  case Nil
  then show ?case by simp
next
  case (Cons u us)
  have 1: "a + unat u \<le> 2 ^ 53" using Cons.prems by simp
  have 2: "(a + unat u) + sum_list (map unat us) \<le> 2 ^ 53" using Cons.prems by (simp add: add.assoc)
  show ?case using Cons.IH[OF 2] fadd_exact[OF 1] by (simp add: add.assoc)
qed

lemma round64_tie: "round64 9007199254740993 = Fin 9007199254740992"
  by (rule round64_cert[where e = 53 and k = 4503599627370496])
     (simp_all add: roundEven_half[of 4503599627370496, simplified])

text \<open>
  Claim C5 says that \<^verbatim>\<open>calculateNetwork\<close> returns the sum of the received bytes for every
  snapshot. On \<open>beyondExact\<close> the received bytes add up to 9007199254740993, and the code
  returns 9007199254740992: the total is accumulated in \<^verbatim>\<open>float64\<close>, and the last addition
  rounds.
\<close>

theorem calculateNetwork_rounds_counterexample:
  "sum_list (map (\<lambda>e. unat (RxBytes (snd e))) (Networks beyondExact)) = 9007199254740993
   \<and> fst (calculateNetwork beyondExact) = Fin 9007199254740992
   \<and> fst (calculateNetwork beyondExact)
       \<noteq> Fin (of_nat (sum_list (map (\<lambda>e. unat (RxBytes (snd e))) (Networks beyondExact))))"
proof -
  have u: "float64_of_uint64 9007199254740992 = Fin 9007199254740992" "float64_of_uint64 1 = Fin 1"
    using float64_of_uint64_exact[of 9007199254740992] float64_of_uint64_exact[of 1] by simp_all
  have z: "round64 9007199254740992 = Fin 9007199254740992"
    using round64_of_nat_exact[of 9007199254740992] by simp
  have r: "fst (calculateNetwork beyondExact) = Fin 9007199254740992"
    by (simp add: calculateNetwork_def networkStep_def beyondExact_def u z round64_tie)
  have t: "sum_list (map (\<lambda>e. unat (RxBytes (snd e))) (Networks beyondExact)) = 9007199254740993"
    by (simp add: beyondExact_def)
  show ?thesis unfolding t using r by simp
qed

text \<open>
  Claim C5 as amended. For every iteration order, \<^verbatim>\<open>calculateNetwork\<close> returns the
  \<^verbatim>\<open>float64\<close> accumulation of the received bytes and, separately, of the transmitted bytes
  over every entry of the network map, whatever the names and the number of entries
  (none included), each counter converted before it is added. Whenever a total is at
  most \<open>2 ^ 53\<close> no step rounds and the result is the exact total.
\<close>

theorem calculateNetwork_sums:
  "calculateNetwork stats =
     (foldl fadd (Fin 0) (map float64_of_uint64 (map (\<lambda>e. RxBytes (snd e)) (Networks stats))),
      foldl fadd (Fin 0) (map float64_of_uint64 (map (\<lambda>e. TxBytes (snd e)) (Networks stats))))
   \<and> (sum_list (map (\<lambda>e. unat (RxBytes (snd e))) (Networks stats)) \<le> 2 ^ 53 \<longrightarrow>
        fst (calculateNetwork stats) =
          Fin (of_nat (sum_list (map (\<lambda>e. unat (RxBytes (snd e))) (Networks stats)))))
   \<and> (sum_list (map (\<lambda>e. unat (TxBytes (snd e))) (Networks stats)) \<le> 2 ^ 53 \<longrightarrow>
        snd (calculateNetwork stats) =
          Fin (of_nat (sum_list (map (\<lambda>e. unat (TxBytes (snd e))) (Networks stats)))))"
proof -
  have e: "calculateNetwork stats =
     (foldl fadd (Fin 0) (map float64_of_uint64 (map (\<lambda>e. RxBytes (snd e)) (Networks stats))),
      foldl fadd (Fin 0) (map float64_of_uint64 (map (\<lambda>e. TxBytes (snd e)) (Networks stats))))"
    by (simp add: calculateNetwork_def foldl_networkStep comp_def)
  have x: "foldl fadd (Fin 0) (map float64_of_uint64 us) = Fin (of_nat (sum_list (map unat us)))"
    if "sum_list (map unat us) \<le> 2 ^ 53" for us
    using foldl_fadd_exact[of 0 us] that by simp
  show ?thesis
    using x[of "map (\<lambda>e. RxBytes (snd e)) (Networks stats)"]
          x[of "map (\<lambda>e. TxBytes (snd e)) (Networks stats)"]
    by (simp add: e comp_def)
qed

theorem calculateNetwork_sums_witness:
  "sum_list (map (\<lambda>e. unat (RxBytes (snd e))) (Networks specExample)) \<le> 2 ^ 53
   \<and> sum_list (map (\<lambda>e. unat (TxBytes (snd e))) (Networks specExample)) \<le> 2 ^ 53
   \<and> calculateNetwork specExample = (Fin 120, Fin 60)"
proof -
  have r: "sum_list (map (\<lambda>e. unat (RxBytes (snd e))) (Networks specExample)) = 120"
    by (simp add: specExample_def)
  have t: "sum_list (map (\<lambda>e. unat (TxBytes (snd e))) (Networks specExample)) = 60"
    by (simp add: specExample_def)
  have "fst (calculateNetwork specExample) = Fin 120" "snd (calculateNetwork specExample) = Fin 60"
    using calculateNetwork_sums[of specExample, THEN conjunct2] unfolding r t by simp_all
  then have "calculateNetwork specExample = (Fin 120, Fin 60)" by (simp add: prod_eq_iff)
  then show ?thesis unfolding r t by simp
qed

section \<open>The derived record\<close>

lemma buildStats_record:
  "buildStats TruncateID caseTable c stats topResult =
     \<lparr>CID = TruncateID (ID c), Command = Container.Command c,
      Stats = stats, ProcessList = topResult,
      CPUPercentage = calculateCPUPercent stats,
      Memory = float64_of_uint64 (Usage (MemoryStats stats)),
      MemoryLimit = float64_of_uint64 (Limit (MemoryStats stats)),
      MemoryPercentage = calculateMemPercentage stats,
      NetworkRx = fst (calculateNetwork stats),
      NetworkTx = snd (calculateNetwork stats),
      BlockRead = float64_of_uint64 (fst (calculateBlockIO caseTable stats)),
      BlockWrite = float64_of_uint64 (snd (calculateBlockIO caseTable stats)),
      PidsCurrent = Current (PidsStats stats)\<rparr>"
  by (simp add: buildStats_def calculateMemPercentage_def Let_def split: prod.splits)

text \<open>
  Claim C10. \<^verbatim>\<open>buildStats\<close> assigns every derived field twice, and the second round
  assigns the values of the first: the record it returns is the one a single round
  computes, with the truncated container id, the command, the snapshot and the process
  list of the struct literal and the process count of the snapshot.
\<close>

theorem buildStats_fields:
  "buildStats TruncateID caseTable c stats topResult =
     \<lparr>CID = TruncateID (ID c), Command = Container.Command c,
      Stats = stats, ProcessList = topResult,
      CPUPercentage = calculateCPUPercent stats,
      Memory = float64_of_uint64 (Usage (MemoryStats stats)),
      MemoryLimit = float64_of_uint64 (Limit (MemoryStats stats)),
      MemoryPercentage = calculateMemPercentage stats,
      NetworkRx = fst (calculateNetwork stats),
      NetworkTx = snd (calculateNetwork stats),
      BlockRead = float64_of_uint64 (fst (calculateBlockIO caseTable stats)),
      BlockWrite = float64_of_uint64 (snd (calculateBlockIO caseTable stats)),
      PidsCurrent = Current (PidsStats stats)\<rparr>"
  by (rule buildStats_record)

section \<open>The subscription of a container that is not running\<close>

lemma NewStatsChannel_running:
  assumes "IsContainerRunning c"
  shows "NewStatsChannel IsContainerRunning c w =
     (\<lparr>Container = c, Stats_chan = Some (nextChan w), Done_chan = Some (nextChan w + 1)\<rparr>,
      w\<lparr>nextChan := nextChan w + 2, goroutines := goroutines w @ [startTask c]\<rparr>)"
  using assms by (simp add: NewStatsChannel_def Let_def)

text \<open>
  Claim C6. For a container that is not running, \<^verbatim>\<open>NewStatsChannel\<close> returns a
  \<^verbatim>\<open>StatsChannel\<close> whose \<^verbatim>\<open>Stats\<close> and \<^verbatim>\<open>Done\<close> channels are nil, and it leaves the runtime as
  it was: no channel is made and no goroutine is started. The function has no error
  result.
\<close>

theorem NewStatsChannel_not_running:
  assumes "\<not> IsContainerRunning c"
  shows "NewStatsChannel IsContainerRunning c w =
     (\<lparr>Container = c, Stats_chan = None, Done_chan = None\<rparr>, w)"
  using assms by (simp add: NewStatsChannel_def)

theorem NewStatsChannel_not_running_witness:
  "\<not> (\<lambda>c. State c = ''running'') (exampleContainer\<lparr>State := ''exited''\<rparr>)
   \<and> NewStatsChannel (\<lambda>c. State c = ''running'') (exampleContainer\<lparr>State := ''exited''\<rparr>)
         \<lparr>nextChan = 0, goroutines = []\<rparr>
       = (\<lparr>Container = exampleContainer\<lparr>State := ''exited''\<rparr>, Stats_chan = None, Done_chan = None\<rparr>,
          \<lparr>nextChan = 0, goroutines = []\<rparr>)"
proof -
  have h: "\<not> (\<lambda>c. State c = ''running'') (exampleContainer\<lparr>State := ''exited''\<rparr>)"
    by (simp add: exampleContainer_def)
  show ?thesis
    using h NewStatsChannel_not_running[of "\<lambda>c. State c = ''running''", OF h,
      of "\<lparr>nextChan = 0, goroutines = []\<rparr>"] by simp
qed

section \<open>The exits of the sampling goroutine\<close>

lemma closedOnce_start: "closedOnce (startTask c)"
  by (simp add: closedOnce_def startTask_def)

lemma closedOnce_step:
  assumes "closedOnce t" and "step T L t e = Some t'"
  shows "closedOnce t'"
  using assms
  by (auto simp: closedOnce_def returns_def
      split: pc.splits event.splits decoded.splits option.splits if_splits)

lemma closedOnce_run:
  "closedOnce t \<Longrightarrow> run T L t es = Some t' \<Longrightarrow> closedOnce t'"
proof (induction es arbitrary: t)
  case Nil
  then show ?case by simp
next
  case (Cons e es)
  then obtain t1 where t1: "step T L t e = Some t1" "run T L t1 es = Some t'"
    by (auto split: option.splits)
  show ?case using Cons.IH[OF closedOnce_step[OF Cons.prems(1) t1(1)] t1(2)] .
qed

text \<open>
  Claim C7. At every moment of every run of the goroutine, \<^verbatim>\<open>close(stats)\<close> and
  \<^verbatim>\<open>responseBody.Close()\<close> have each happened once if the goroutine has exited and not at
  all otherwise, and an exited goroutine takes no further step. Each exit event ends
  the goroutine in one step: a decode error (a broken or ended stream) in the first
  decode or in the decode of a tick, the \<^verbatim>\<open>done\<close> case of the \<^verbatim>\<open>select\<close> (which calls
  \<^verbatim>\<open>cancel()\<close> first) and its \<^verbatim>\<open>ctx.Done()\<close> case. The step of an exit appends the closing
  actions and nothing else: what the consumer receives on \<^verbatim>\<open>stats\<close> are \<^verbatim>\<open>Stats\<close> records,
  and an error shows only as the closing of the channel.
\<close>

theorem sampling_goroutine_closes_once:
  assumes "run TruncateID caseTable (startTask c) es = Some t"
  shows "count_list (actions t) CloseStats = (if pc t = Exited then 1 else 0)
     \<and> count_list (actions t) CloseBody = (if pc t = Exited then 1 else 0)
     \<and> (pc t = Exited \<longrightarrow> (\<forall>e. step TruncateID caseTable t e = None))
     \<and> (pc t = FirstDecode \<or> pc t = TickDecode \<longrightarrow>
          step TruncateID caseTable t (DecodeReturns DecodeErr)
            = Some (t\<lparr>pc := Exited, actions := actions t @ [CloseStats, CloseBody]\<rparr>))
     \<and> (pc t = Select \<longrightarrow>
          step TruncateID caseTable t DoneSignal
            = Some (t\<lparr>pc := Exited, actions := actions t @ [Cancel, CloseStats, CloseBody]\<rparr>)
          \<and> step TruncateID caseTable t CtxDone
            = Some (t\<lparr>pc := Exited, actions := actions t @ [CloseStats, CloseBody]\<rparr>))"
proof -
  have "closedOnce t" using closedOnce_run[OF closedOnce_start assms] .
  then show ?thesis by (auto simp: closedOnce_def returns_def)
qed

theorem sampling_goroutine_closes_once_witness:
  "run exampleTruncateID exampleCaseTable (startTask exampleContainer)
      [OpenReturns False False, DecodeReturns (DecodeOk (Some specExample))]
     = Some (inFlight\<lparr>pc := Select\<rparr>)
   \<and> step exampleTruncateID exampleCaseTable (inFlight\<lparr>pc := Select\<rparr>) DoneSignal
     = Some (inFlight\<lparr>pc := Exited, actions := [Cancel, CloseStats, CloseBody]\<rparr>)
   \<and> step exampleTruncateID exampleCaseTable (inFlight\<lparr>pc := Select\<rparr>) CtxDone
     = Some (inFlight\<lparr>pc := Exited, actions := [CloseStats, CloseBody]\<rparr>)
   \<and> run exampleTruncateID exampleCaseTable (startTask exampleContainer)
      [OpenReturns False False, DecodeReturns (DecodeOk (Some specExample)), Tick]
     = Some inFlight
   \<and> step exampleTruncateID exampleCaseTable inFlight (DecodeReturns DecodeErr)
     = Some (inFlight\<lparr>pc := Exited, actions := [CloseStats, CloseBody]\<rparr>)
   \<and> (\<exists>t. run exampleTruncateID exampleCaseTable (startTask exampleContainer) exampleRun = Some t
       \<and> pc t = Exited
       \<and> count_list (actions t) CloseStats = 1 \<and> count_list (actions t) CloseBody = 1
       \<and> (\<forall>e. step exampleTruncateID exampleCaseTable t e = None)
       \<and> actions t =
           [Send (buildStats exampleTruncateID exampleCaseTable exampleContainer specExample
                    (Some \<lparr>Processes = [], Titles = []\<rparr>)),
            CloseStats, CloseBody])"
proof -
  define t where "t =
     \<lparr>container = exampleContainer, statsJSON = Some specExample, pc = Exited,
      actions = [Send (buildStats exampleTruncateID exampleCaseTable exampleContainer specExample
                         (Some \<lparr>Processes = [], Titles = []\<rparr>)),
                 CloseStats, CloseBody]\<rparr>"
  have r2: "run exampleTruncateID exampleCaseTable (startTask exampleContainer)
      [OpenReturns False False, DecodeReturns (DecodeOk (Some specExample))]
     = Some (inFlight\<lparr>pc := Select\<rparr>)"
    by (simp add: startTask_def exampleContainer_def inFlight_def)
  have r3: "run exampleTruncateID exampleCaseTable (startTask exampleContainer)
      [OpenReturns False False, DecodeReturns (DecodeOk (Some specExample)), Tick]
     = Some inFlight"
    by (simp add: startTask_def exampleContainer_def inFlight_def)
  have r: "run exampleTruncateID exampleCaseTable (startTask exampleContainer) exampleRun = Some t"
    by (simp add: exampleRun_def startTask_def exampleContainer_def returns_def t_def)
  have p2: "pc (inFlight\<lparr>pc := Select\<rparr>) = Select" by simp
  have p3: "pc inFlight = TickDecode" by (simp add: inFlight_def)
  have p: "pc t = Exited" by (simp add: t_def)
  have a: "actions inFlight = []" by (simp add: inFlight_def)
  have e2: "step exampleTruncateID exampleCaseTable (inFlight\<lparr>pc := Select\<rparr>) DoneSignal
      = Some (inFlight\<lparr>pc := Exited, actions := [Cancel, CloseStats, CloseBody]\<rparr>)"
    "step exampleTruncateID exampleCaseTable (inFlight\<lparr>pc := Select\<rparr>) CtxDone
      = Some (inFlight\<lparr>pc := Exited, actions := [CloseStats, CloseBody]\<rparr>)"
    using sampling_goroutine_closes_once[OF r2] p2 a by simp_all
  have e3: "step exampleTruncateID exampleCaseTable inFlight (DecodeReturns DecodeErr)
      = Some (inFlight\<lparr>pc := Exited, actions := [CloseStats, CloseBody]\<rparr>)"
    using sampling_goroutine_closes_once[OF r3] p3 a by simp
  have e: "count_list (actions t) CloseStats = 1" "count_list (actions t) CloseBody = 1"
    "\<forall>e. step exampleTruncateID exampleCaseTable t e = None"
    using sampling_goroutine_closes_once[OF r] p by simp_all
  have "actions t =
      [Send (buildStats exampleTruncateID exampleCaseTable exampleContainer specExample (Some \<lparr>Processes = [], Titles = []\<rparr>)),
       CloseStats, CloseBody]"
    by (simp add: t_def)
  with r p e have "\<exists>t. run exampleTruncateID exampleCaseTable (startTask exampleContainer) exampleRun = Some t
       \<and> pc t = Exited
       \<and> count_list (actions t) CloseStats = 1 \<and> count_list (actions t) CloseBody = 1
       \<and> (\<forall>e. step exampleTruncateID exampleCaseTable t e = None)
       \<and> actions t =
           [Send (buildStats exampleTruncateID exampleCaseTable exampleContainer specExample
                    (Some \<lparr>Processes = [], Titles = []\<rparr>)),
            CloseStats, CloseBody]"
    by blast
  with r2 r3 e2 e3 show ?thesis by blast
qed

text \<open>
  The exits that the claim does not list: when \<^verbatim>\<open>cli.ContainerStats\<close> fails with a \<^verbatim>\<open>Body\<close>
  that is not nil the goroutine returns through both deferred calls; with a nil \<^verbatim>\<open>Body\<close>
  it panics at \<^verbatim>\<open>defer responseBody.Close()\<close>, before \<^verbatim>\<open>close(stats)\<close> is deferred.
\<close>

lemma open_failure:
  assumes "pc t = Opening"
  shows "step TruncateID caseTable t (OpenReturns False True)
           = Some (t\<lparr>pc := Exited, actions := actions t @ [CloseStats, CloseBody]\<rparr>)"
    and "step TruncateID caseTable t (OpenReturns True err) = Some (t\<lparr>pc := Panicked\<rparr>)"
  using assms by (simp_all add: returns_def)

section \<open>Cancellation and a decode in flight\<close>

text \<open>
  Claim C8 says that a cancellation request interrupts a decode that is in flight by
  cancelling the connection. In the code the \<^verbatim>\<open>done\<close> channel is received from only in the
  \<^verbatim>\<open>select\<close>, and \<^verbatim>\<open>cancel()\<close> is called only there: after a tick the goroutine is inside
  \<^verbatim>\<open>dec.Decode\<close>, a request is not taken, and nothing has cancelled the connection.
\<close>

theorem cancellation_in_flight_counterexample:
  "\<not> (\<forall>es t. run exampleTruncateID exampleCaseTable (startTask exampleContainer) es = Some t \<longrightarrow> pc t = TickDecode \<longrightarrow>
        (\<exists>t'. step exampleTruncateID exampleCaseTable t DoneSignal = Some t' \<and> Cancel \<in> set (actions t')))"
proof
  assume a: "\<forall>es t. run exampleTruncateID exampleCaseTable (startTask exampleContainer) es = Some t \<longrightarrow> pc t = TickDecode \<longrightarrow>
        (\<exists>t'. step exampleTruncateID exampleCaseTable t DoneSignal = Some t' \<and> Cancel \<in> set (actions t'))"
  have r: "run exampleTruncateID exampleCaseTable (startTask exampleContainer)
      [OpenReturns False False, DecodeReturns (DecodeOk (Some specExample)), Tick] = Some inFlight"
    by (simp add: startTask_def exampleContainer_def inFlight_def)
  have p: "pc inFlight = TickDecode" by (simp add: inFlight_def)
  have "step exampleTruncateID exampleCaseTable inFlight DoneSignal = None" by (simp add: inFlight_def)
  with a r p show False by (metis option.distinct(1))
qed

text \<open>
  Claim C8 as amended. A cancellation request is taken only while the goroutine waits in
  the \<^verbatim>\<open>select\<close>: it then calls \<^verbatim>\<open>cancel()\<close> and returns, closing \<^verbatim>\<open>stats\<close> and the stream.
  While a decode is in flight the goroutine takes nothing but the return of that
  decode, and no other step of the goroutine calls \<^verbatim>\<open>cancel()\<close>.
\<close>

theorem done_taken_only_at_select:
  "step TruncateID caseTable t DoneSignal =
     (if pc t = Select
      then Some (t\<lparr>pc := Exited, actions := actions t @ [Cancel, CloseStats, CloseBody]\<rparr>)
      else None)
   \<and> (pc t = FirstDecode \<or> pc t = TickDecode \<longrightarrow>
        (\<forall>e. step TruncateID caseTable t e \<noteq> None \<longleftrightarrow> (\<exists>r. e = DecodeReturns r)))
   \<and> (\<forall>e t'. step TruncateID caseTable t e = Some t' \<longrightarrow> Cancel \<in> set (actions t') \<longrightarrow> Cancel \<notin> set (actions t) \<longrightarrow>
        pc t = Select \<and> e = DoneSignal)"
  by (auto simp: returns_def split: pc.splits event.splits decoded.splits option.splits if_splits)

theorem done_taken_only_at_select_witness:
  "pc inFlight = TickDecode
   \<and> step exampleTruncateID exampleCaseTable inFlight DoneSignal = None
   \<and> step exampleTruncateID exampleCaseTable inFlight (DecodeReturns DecodeErr) \<noteq> None
   \<and> step exampleTruncateID exampleCaseTable (inFlight\<lparr>pc := Select\<rparr>) DoneSignal
        = Some (inFlight\<lparr>pc := Exited, actions := [Cancel, CloseStats, CloseBody]\<rparr>)"
proof -
  have p: "pc inFlight = TickDecode" by (simp add: inFlight_def)
  have q: "pc (inFlight\<lparr>pc := Select\<rparr>) = Select" by simp
  show ?thesis
    using done_taken_only_at_select[of exampleTruncateID exampleCaseTable inFlight]
      done_taken_only_at_select[of exampleTruncateID exampleCaseTable "inFlight\<lparr>pc := Select\<rparr>"] p q
    by (simp add: inFlight_def)
qed

section \<open>The process list of a tick\<close>

text \<open>
  Claim C9 says that the process-list field of the record is absent, left empty, when
  the query fails. In the code the error of the query is dropped
  (\<^verbatim>\<open>top, _ := daemon.Top(...)\<close>) and \<^verbatim>\<open>buildStats\<close> gets \<^verbatim>\<open>&top\<close> in every case: the field is
  never nil, and it holds the list that came with the error. In this run the query
  fails with a list of one process, and the record that is sent carries that list.
\<close>

theorem top_failure_list_counterexample:
  "run exampleTruncateID exampleCaseTable inFlight
      [DecodeReturns (DecodeOk (Some specExample)), TopReturns unfinishedTop True, Received]
     = Some (inFlight\<lparr>pc := Select,
              actions := [Send (buildStats exampleTruncateID exampleCaseTable exampleContainer
                                  specExample (Some unfinishedTop))]\<rparr>)
   \<and> ProcessList (buildStats exampleTruncateID exampleCaseTable exampleContainer specExample
        (Some unfinishedTop)) \<noteq> None
   \<and> ProcessList (buildStats exampleTruncateID exampleCaseTable exampleContainer specExample
        (Some unfinishedTop)) \<noteq> Some \<lparr>Processes = [], Titles = []\<rparr>
   \<and> ProcessList (buildStats exampleTruncateID exampleCaseTable exampleContainer specExample
        (Some unfinishedTop)) = Some \<lparr>Processes = [[''1'', ''nginx'']], Titles = [''PID'', ''CMD'']\<rparr>"
  by (simp add: inFlight_def buildStats_record unfinishedTop_def)

text \<open>
  Claim C9 as amended. After a tick, when the decode returns a snapshot, the goroutine
  queries the process list, builds the \<^verbatim>\<open>Stats\<close> record and sends it, and is back in the
  \<^verbatim>\<open>select\<close> once the consumer has received it, whether the query returned an error or not:
  a failure of the query neither aborts the tick nor ends the goroutine. The
  \<^verbatim>\<open>ProcessList\<close> of the record is never nil: it points to the list that the query
  returned, with or without an error.
\<close>

theorem top_failure_does_not_abort:
  assumes "pc t = TickDecode"
  shows "run TruncateID caseTable t
        [DecodeReturns (DecodeOk (Some js)), TopReturns topResult err, Received]
      = Some (t\<lparr>statsJSON := Some js, pc := Select,
               actions := actions t
                 @ [Send (buildStats TruncateID caseTable (container t) js (Some topResult))]\<rparr>)
    \<and> ProcessList (buildStats TruncateID caseTable (container t) js (Some topResult))
        = Some topResult"
  using assms by (simp add: buildStats_record)

theorem top_failure_does_not_abort_witness:
  "pc inFlight = TickDecode
   \<and> run exampleTruncateID exampleCaseTable inFlight
        [DecodeReturns (DecodeOk (Some specExample)),
         TopReturns \<lparr>Processes = [], Titles = []\<rparr> True, Received]
      = Some (inFlight\<lparr>pc := Select,
               actions := [Send (buildStats exampleTruncateID exampleCaseTable exampleContainer
                                   specExample (Some \<lparr>Processes = [], Titles = []\<rparr>))]\<rparr>)
   \<and> ProcessList (buildStats exampleTruncateID exampleCaseTable exampleContainer specExample
        (Some \<lparr>Processes = [], Titles = []\<rparr>))
      = Some \<lparr>Processes = [], Titles = []\<rparr>"
proof -
  have p: "pc inFlight = TickDecode" by (simp add: inFlight_def)
  show ?thesis
    using top_failure_does_not_abort[OF p, of exampleTruncateID exampleCaseTable specExample
        "\<lparr>Processes = [], Titles = []\<rparr>" True] p
    by (simp add: inFlight_def)
qed

end
